theory Spec2Isabelle
  imports Main "HOL-Library.Word" "HOL-Library.Sublist"
begin

unbundle bit_operations_syntax

section \<open>The record store of \<open>internal/log/store.go\<close>\<close>

text \<open>
  The store keeps variable-length records in one file. Each record is an 8-byte
  big-endian length followed by the payload. Writes go through a \<open>bufio.Writer\<close>,
  reads flush that writer and then read the file by position.

  The Go standard library is not part of the repository; the parts the store calls
  (\<open>os.File\<close>, \<open>bufio.Writer\<close>, \<open>encoding/binary\<close>) are modelled below from their
  Go sources, each definition carrying the Go function's name. The \<open>sync.Mutex\<close> is left
  out: the model is sequential, every operation is one atomic step.
\<close>

subsection \<open>Bytes, integers and errors\<close>

type_synonym byte = "8 word"
type_synonym uint64 = "64 word"

text \<open>
  Go's \<open>int64\<close> and (on 64-bit platforms) \<open>int\<close> are 64-bit patterns read as two's
  complement: a \<open>64 word\<close> read by \<open>sint\<close>. The conversions \<open>int64(x)\<close> and
  \<open>uint64(x)\<close> between them keep the bit pattern and are therefore the identity here.
\<close>

type_synonym int64 = "64 word"

datatype error =
    ErrClosed           \<comment> \<open>\<open>os.ErrClosed\<close>: the handle has been closed\<close>
  | ErrNoSpace          \<comment> \<open>the device accepted only a part of a write\<close>
  | ErrShortWrite       \<comment> \<open>\<open>io.ErrShortWrite\<close>\<close>
  | EOF                 \<comment> \<open>\<open>io.EOF\<close>: a positional read ran past the end of the file\<close>
  | ErrNegativeOffset   \<comment> \<open>\<open>ReadAt\<close> with a negative offset\<close>
  | ErrNotExist         \<comment> \<open>\<open>os.Stat\<close> on a name that no longer exists\<close>
  | PanicIndex          \<comment> \<open>run-time panic: index out of range\<close>
  | PanicMakeslice      \<comment> \<open>run-time panic: \<open>makeslice: len out of range\<close>\<close>

subsection \<open>\<open>encoding/binary\<close>: the big-endian byte order\<close>

text \<open>
  \<open>binary.BigEndian.PutUint64\<close> stores \<open>byte(v >> 56)\<close>, ..., \<open>byte(v)\<close> in this order;
  \<open>binary.BigEndian.Uint64\<close> reads \<open>b[7] | b[6]<<8 | ... | b[0]<<56\<close> and panics on a
  slice shorter than 8 bytes.
\<close>

definition PutUint64 :: "uint64 \<Rightarrow> byte list" where
  "PutUint64 v =
     [ucast (drop_bit 56 v), ucast (drop_bit 48 v), ucast (drop_bit 40 v),
      ucast (drop_bit 32 v), ucast (drop_bit 24 v), ucast (drop_bit 16 v),
      ucast (drop_bit 8 v), ucast v]"

definition Uint64 :: "byte list \<Rightarrow> uint64 option" where
  "Uint64 b =
     (if length b < 8 then None
      else Some (ucast (b ! 7) OR push_bit 8 (ucast (b ! 6)) OR push_bit 16 (ucast (b ! 5))
                 OR push_bit 24 (ucast (b ! 4)) OR push_bit 32 (ucast (b ! 3))
                 OR push_bit 40 (ucast (b ! 2)) OR push_bit 48 (ucast (b ! 1))
                 OR push_bit 56 (ucast (b ! 0))))"

subsection \<open>\<open>os.File\<close>: one file and the handle on it\<close>

text \<open>
  The file is its bytes on disk (\<open>content\<close>) together with the state of the open handle:
  the write offset, whether the handle was opened with \<open>O_APPEND\<close>, and whether it has
  been closed. \<open>linked\<close> says that the name the handle was opened under still exists, which
  is what \<open>os.Stat(file.Name())\<close> asks. \<open>capacity\<close> is the largest length the device lets
  the file reach: a write that would go beyond it stores the bytes that fit and reports
  \<open>ErrNoSpace\<close>. It is the model's source of write failures besides a closed handle.
\<close>

record os_file =
  content :: "byte list"
  offset :: nat
  append_mode :: bool
  closed :: bool
  linked :: bool
  capacity :: nat

text \<open>
  Storing \<open>q\<close> at position \<open>off\<close>: bytes before \<open>off\<close> stay (a gap beyond the old end is
  filled with zeros), bytes behind the written range stay.
\<close>

definition write_bytes :: "byte list \<Rightarrow> nat \<Rightarrow> byte list \<Rightarrow> byte list" where
  "write_bytes c off q =
     take off c @ replicate (off - length c) 0 @ q @ drop (off + length q) c"

text \<open>
  \<open>(*os.File).Write\<close>: writes at the handle's offset, or at the end of the file under
  \<open>O_APPEND\<close>, and advances the offset. It returns the number of bytes written and an
  error whenever that number is less than \<open>len(p)\<close>.
\<close>

definition file_Write :: "os_file \<Rightarrow> byte list \<Rightarrow> (nat \<times> error option) \<times> os_file" where
  "file_Write f p =
     (if closed f then ((0, Some ErrClosed), f)
      else
        let off = (if append_mode f then length (content f) else offset f);
            k = min (length p) (capacity f - off)
        in ((k, if k < length p then Some ErrNoSpace else None),
            f\<lparr>content := write_bytes (content f) off (take k p), offset := off + k\<rparr>))"

text \<open>
  \<open>(*os.File).ReadAt\<close>: rejects a negative offset, then reads until the caller's slice
  \<open>b\<close> is full. With an empty slice the read loop is not entered and nothing can fail.
  A closed handle fails at the first read; reaching the end of the file before \<open>b\<close> is
  full gives \<open>io.EOF\<close> with the count read so far. The result is the slice as the call
  leaves it, the count and the error.
\<close>

definition file_ReadAt :: "os_file \<Rightarrow> byte list \<Rightarrow> int64 \<Rightarrow> byte list \<times> nat \<times> error option" where
  "file_ReadAt f b off =
     (if sint off < 0 then (b, 0, Some ErrNegativeOffset)
      else if b = [] then (b, 0, None)
      else if closed f then (b, 0, Some ErrClosed)
      else
        let got = take (length b) (drop (unat off) (content f))
        in (got @ drop (length got) b, length got,
            if length got < length b then Some EOF else None))"

text \<open>\<open>(*os.File).Close\<close>: closing a handle twice is an error.\<close>

definition file_Close :: "os_file \<Rightarrow> error option \<times> os_file" where
  "file_Close f = (if closed f then (Some ErrClosed, f) else (None, f\<lparr>closed := True\<rparr>))"

subsection \<open>\<open>bufio.Writer\<close>\<close>

text \<open>
  The writer has a sticky error \<open>err\<close>, the pending bytes \<open>buf\<close> (Go's \<open>b.buf[0:b.n]\<close>)
  and the size of its array \<open>bufsize\<close> (Go's \<open>len(b.buf)\<close>). The underlying \<open>io.Writer\<close>
  is the store's own file handle, the same object the store reads from; the functions
  below therefore take the file and return it updated.
\<close>

record writer =
  err :: "error option"
  buf :: "byte list"
  bufsize :: nat

definition defaultBufSize :: nat where
  "defaultBufSize = 4096"

definition NewWriter :: writer where
  "NewWriter = \<lparr>err = None, buf = [], bufsize = defaultBufSize\<rparr>"

definition Available :: "writer \<Rightarrow> nat" where
  "Available b = bufsize b - length (buf b)"

definition Buffered :: "writer \<Rightarrow> nat" where
  "Buffered b = length (buf b)"

text \<open>
  \<open>(*bufio.Writer).Flush\<close>: returns the sticky error if there is one; otherwise writes the
  pending bytes. After a failed or short write the unwritten bytes stay pending and the
  error becomes sticky.
\<close>

definition Flush :: "writer \<Rightarrow> os_file \<Rightarrow> error option \<times> writer \<times> os_file" where
  "Flush b f =
     (if err b \<noteq> None then (err b, b, f)
      else if Buffered b = 0 then (None, b, f)
      else
        let ((n, e), f') = file_Write f (buf b);
            e' = (if n < Buffered b \<and> e = None then Some ErrShortWrite else e)
        in if e' \<noteq> None then (e', b\<lparr>err := e', buf := drop n (buf b)\<rparr>, f')
           else (None, b\<lparr>buf := []\<rparr>, f'))"

text \<open>
  The loop of \<open>(*bufio.Writer).Write\<close>: while \<open>p\<close> does not fit and no error is pending,
  either write \<open>p\<close> directly (empty buffer) or fill the buffer and flush it. The state of
  the loop is the writer, the file, the rest of \<open>p\<close> and the count \<open>nn\<close>.
\<close>

function Write_loop :: "writer \<Rightarrow> os_file \<Rightarrow> byte list \<Rightarrow> nat \<Rightarrow> writer \<times> os_file \<times> byte list \<times> nat" where
  "Write_loop b f p nn =
     (if length p > Available b \<and> err b = None then
        (if Buffered b = 0 then
           (case file_Write f p of
              ((n, e), f') \<Rightarrow> Write_loop (b\<lparr>err := e\<rparr>) f' (drop n p) (nn + n))
         else
           (let n = min (Available b) (length p) in
            case Flush (b\<lparr>buf := buf b @ take n p\<rparr>) f of
              (e, b', f') \<Rightarrow> Write_loop b' f' (drop n p) (nn + n)))
      else (b, f, p, nn))"
  by pat_completeness auto
termination Write_loop
proof (relation "measure (\<lambda>(b, f, p, nn).
          if err b \<noteq> None then 0 else 2 * length p + (if buf b = [] then 0 else 1) + 1)",
       goal_cases)
  case 1
  show ?case by simp
next
  case (2 b f p nn x f' n e)
  then have fw: "file_Write f p = ((n, e), f')" by simp
  show ?case
  proof (cases e)
    case None
    with fw have "n = length p"
      by (auto simp: file_Write_def Let_def split: if_splits)
    with 2 None show ?thesis by (auto simp: Buffered_def)
  next
    case (Some a)
    with 2 show ?thesis by simp
  qed
next
  case (3 b f p nn n e y b' f')
  then have fl: "Flush (b\<lparr>buf := buf b @ take n p\<rparr>) f = (e, b', f')" by simp
  show ?case
  proof (cases "err b'")
    case None
    have "buf b' = []" if "Flush b0 f = (e, b', f')" for b0
      using that None
      by (auto simp: Flush_def Let_def Buffered_def split: if_splits prod.splits)
    with fl have "buf b' = []" by blast
    with 3 None show ?thesis by (auto simp: Buffered_def Available_def)
  next
    case (Some a)
    with 3 show ?thesis by simp
  qed
qed

declare Write_loop.simps [simp del]

text \<open>
  \<open>(*bufio.Writer).Write\<close>: after the loop, a pending error is returned with the count
  so far; otherwise the rest of \<open>p\<close> is copied into the buffer.
\<close>

definition Write :: "writer \<Rightarrow> os_file \<Rightarrow> byte list \<Rightarrow> (nat \<times> error option) \<times> writer \<times> os_file" where
  "Write b f p =
     (case Write_loop b f p 0 of
        (b', f', p', nn) \<Rightarrow>
          if err b' \<noteq> None then ((nn, err b'), b', f')
          else ((nn + length p', None), b'\<lparr>buf := buf b' @ p'\<rparr>, f'))"

text \<open>
  \<open>binary.Write(w, binary.BigEndian, v)\<close> for a \<open>uint64\<close>: encode into 8 bytes, write
  them, return the error of that write only.
\<close>

definition binary_Write :: "writer \<Rightarrow> os_file \<Rightarrow> uint64 \<Rightarrow> error option \<times> writer \<times> os_file" where
  "binary_Write b f v = (case Write b f (PutUint64 v) of ((n, e), b', f') \<Rightarrow> (e, b', f'))"

subsection \<open>The store\<close>

text \<open>
  \<open>File\<close> is the embedded \<open>*os.File\<close>; the writer in \<open>buffer\<close> writes to that same
  file, so the record holds the file once.
\<close>

record store =
  File :: os_file
  buffer :: writer
  fileSize :: uint64

definition dataLengthWeightInBytes :: nat where
  "dataLengthWeightInBytes = 8"

text \<open>\<open>newStore\<close>: \<open>os.Stat\<close> on the file's name gives the size cursor, or fails.\<close>

definition newStore :: "os_file \<Rightarrow> error + store" where
  "newStore file =
     (if \<not> linked file then Inl ErrNotExist
      else Inr \<lparr>File = file, buffer = NewWriter, fileSize = of_nat (length (content file))\<rparr>)"

text \<open>
  \<open>Append\<close> returns Go's triple \<open>(n, pos, err)\<close> and the store as the call leaves it.
  \<open>w\<close> is an \<open>int\<close>; \<open>w += 8\<close> and \<open>uint64(w)\<close> are computed on the 64-bit pattern.
\<close>

definition Append :: "store \<Rightarrow> byte list \<Rightarrow> (uint64 \<times> uint64 \<times> error option) \<times> store" where
  "Append s data =
     (let pos = fileSize s in
      case binary_Write (buffer s) (File s) (of_nat (length data)) of
        (e1, b1, f1) \<Rightarrow>
          if e1 \<noteq> None then ((0, 0, e1), s\<lparr>File := f1, buffer := b1\<rparr>)
          else
            (case Write b1 f1 data of
               ((w, e2), b2, f2) \<Rightarrow>
                 if e2 \<noteq> None then ((0, 0, e2), s\<lparr>File := f2, buffer := b2\<rparr>)
                 else
                   let w' = (of_nat w :: uint64) + of_nat dataLengthWeightInBytes
                   in ((w', pos, None),
                       s\<lparr>File := f2, buffer := b2, fileSize := fileSize s + w'\<rparr>)))"

text \<open>
  \<open>make([]byte, n)\<close> with a \<open>uint64\<close> length: a length that is no valid \<open>int\<close> panics;
  otherwise the slice is \<open>n\<close> zero bytes. (The allocation limit of the run-time system
  and exhausted memory are not modelled.)
\<close>

definition make_bytes :: "uint64 \<Rightarrow> byte list option" where
  "make_bytes n = (if 2 ^ 63 \<le> unat n then None else Some (replicate (unat n) 0))"

text \<open>
  \<open>Read\<close> returns Go's pair \<open>([]byte, err)\<close>, with \<open>[]\<close> for \<open>nil\<close>, and the store as
  the call leaves it. \<open>int64(pos)\<close> keeps the bit pattern; \<open>pos + 8\<close> wraps in \<open>uint64\<close>.
\<close>

definition Read :: "store \<Rightarrow> uint64 \<Rightarrow> (byte list \<times> error option) \<times> store" where
  "Read s pos =
     (case Flush (buffer s) (File s) of
        (e, b1, f1) \<Rightarrow>
          let s1 = s\<lparr>File := f1, buffer := b1\<rparr> in
          if e \<noteq> None then (([], e), s1)
          else
            (case file_ReadAt f1 (replicate dataLengthWeightInBytes 0) pos of
               (length', n1, e1) \<Rightarrow>
                 if e1 \<noteq> None then (([], e1), s1)
                 else
                   (case Uint64 length' of
                      None \<Rightarrow> (([], Some PanicIndex), s1)
                    | Some l \<Rightarrow>
                        (case make_bytes l of
                           None \<Rightarrow> (([], Some PanicMakeslice), s1)
                         | Some b0 \<Rightarrow>
                             (case file_ReadAt f1 b0 (pos + of_nat dataLengthWeightInBytes) of
                                (b, n2, e2) \<Rightarrow>
                                  if e2 \<noteq> None then (([], e2), s1)
                                  else ((b, None), s1))))))"

text \<open>
  \<open>ReadAt\<close> fills the caller's slice \<open>data\<close>: the result is the slice after the call,
  Go's pair \<open>(n, err)\<close> and the store as the call leaves it.
\<close>

definition ReadAt :: "store \<Rightarrow> byte list \<Rightarrow> int64 \<Rightarrow> (byte list \<times> nat \<times> error option) \<times> store" where
  "ReadAt s data off =
     (case Flush (buffer s) (File s) of
        (e, b1, f1) \<Rightarrow>
          let s1 = s\<lparr>File := f1, buffer := b1\<rparr> in
          if e \<noteq> None then ((data, 0, e), s1)
          else (file_ReadAt f1 data off, s1))"

definition Close :: "store \<Rightarrow> error option \<times> store" where
  "Close s =
     (case Flush (buffer s) (File s) of
        (e, b1, f1) \<Rightarrow>
          let s1 = s\<lparr>File := f1, buffer := b1\<rparr> in
          if e \<noteq> None then (e, s1)
          else (case file_Close f1 of (e', f2) \<Rightarrow> (e', s1\<lparr>File := f2\<rparr>)))"

text \<open>
  \<open>openFile\<close> of \<open>store_test.go\<close> opens the file's name again with
  \<open>O_RDWR|O_CREATE|O_APPEND\<close> and reports its size: a fresh handle in append mode on the
  same bytes. A name that no longer exists is created as an empty file. In this
  one-file model neither opening nor \<open>Stat\<close> on the fresh handle fails.
\<close>

definition openFile :: "os_file \<Rightarrow> os_file \<times> nat" where
  "openFile f =
     (let c = (if linked f then content f else []);
          f' = f\<lparr>content := c, offset := 0, append_mode := True, closed := False, linked := True\<rparr>
      in (f', length c))"

subsection \<open>The test helpers of \<open>store_test.go\<close>\<close>

text \<open>
  \<open>os.CreateTemp\<close>, as the tests call it: a new, empty file opened for reading and
  writing (without \<open>O_APPEND\<close>), on a device that lets it grow to \<open>cap\<close> bytes.
\<close>

definition CreateTemp :: "nat \<Rightarrow> os_file" where
  "CreateTemp cap =
     \<lparr>content = [], offset = 0, append_mode = False, closed = False, linked = True,
      capacity = cap\<rparr>"

definition testData :: "byte list" where
  "testData = map (\<lambda>c. of_nat (of_char c)) ''hello world log''"

definition testDataLength :: uint64 where
  "testDataLength = of_nat (length testData) + of_nat dataLengthWeightInBytes"

text \<open>
  The loop of \<open>testAppend\<close>, for any list of payloads: append them in order, collect the
  pairs \<open>(n, pos)\<close>, stop at the first error.
\<close>

fun append_all :: "store \<Rightarrow> byte list list \<Rightarrow> ((uint64 \<times> uint64) list \<times> error option) \<times> store" where
  "append_all s [] = (([], None), s)"
| "append_all s (d # ds) =
     (case Append s d of
        ((n, pos, e), s') \<Rightarrow>
          if e \<noteq> None then (([], e), s')
          else (case append_all s' ds of ((rs, e'), s'') \<Rightarrow> (((n, pos) # rs, e'), s'')))"

text \<open>
  One round of the loop of \<open>testReadAt\<close>, which is also the composite the specification
  compares \<open>Read\<close> with: \<open>ReadAt\<close> into an 8-byte slice at \<open>pos\<close>, decode the length,
  \<open>ReadAt\<close> into a slice of that length at \<open>pos + 8\<close>.
\<close>

definition Read_via_ReadAt :: "store \<Rightarrow> uint64 \<Rightarrow> (byte list \<times> error option) \<times> store" where
  "Read_via_ReadAt s pos =
     (case ReadAt s (replicate dataLengthWeightInBytes 0) pos of
        ((hdr, n1, e1), s1) \<Rightarrow>
          if e1 \<noteq> None then (([], e1), s1)
          else
            (case Uint64 hdr of
               None \<Rightarrow> (([], Some PanicIndex), s1)
             | Some l \<Rightarrow>
                 (case make_bytes l of
                    None \<Rightarrow> (([], Some PanicMakeslice), s1)
                  | Some b0 \<Rightarrow>
                      (case ReadAt s1 b0 (pos + of_nat dataLengthWeightInBytes) of
                         ((b, n2, e2), s2) \<Rightarrow>
                           if e2 \<noteq> None then (([], e2), s2) else ((b, None), s2)))))"

subsection \<open>Notions of the specification\<close>

text \<open>
  The handle is \<^emph>\<open>appendable\<close>: its next write lands at the end of the file. The
  specification requires this of the handle given to \<open>newStore\<close>.
\<close>

definition at_end :: "os_file \<Rightarrow> bool" where
  "at_end f = (append_mode f \<or> offset f = length (content f))"

text \<open>The logical byte sequence of the store: what is on disk, then what is buffered.\<close>

definition stream :: "store \<Rightarrow> byte list" where
  "stream s = content (File s) @ buf (buffer s)"

text \<open>The wire form of one record: the 8-byte length, then the payload.\<close>

definition encode_record :: "byte list \<Rightarrow> byte list" where
  "encode_record d = PutUint64 (of_nat (length d)) @ d"

text \<open>The unsigned number that a byte sequence denotes in big-endian order.\<close>

definition be_value :: "byte list \<Rightarrow> nat" where
  "be_value bs = foldl (\<lambda>a b. a * 256 + unat b) 0 bs"

text \<open>The bytes hold the record with payload \<open>d\<close> at position \<open>p\<close>.\<close>

definition record_at :: "byte list \<Rightarrow> nat \<Rightarrow> byte list \<Rightarrow> bool" where
  "record_at bytes p d =
     (p + 8 + length d \<le> length bytes \<and> take (8 + length d) (drop p bytes) = encode_record d)"

text \<open>File offsets are \<open>int64\<close>: no file is longer than \<open>2^63 - 1\<close> bytes.\<close>

definition max_file_size :: nat where
  "max_file_size = 2 ^ 63 - 1"

text \<open>
  The invariant of a store built by \<open>newStore\<close> over an appendable handle: writes land at
  the end of the file, the file is within the device's limit, the buffer is the default
  one and within its size, and the size cursor never exceeds the logical length and equals
  it as long as no write has failed.
\<close>

definition store_inv :: "store \<Rightarrow> bool" where
  "store_inv s =
     (at_end (File s) \<and> length (content (File s)) \<le> capacity (File s) \<and>
      capacity (File s) \<le> max_file_size \<and>
      bufsize (buffer s) = defaultBufSize \<and> length (buf (buffer s)) \<le> bufsize (buffer s) \<and>
      unat (fileSize s) \<le> length (stream s) \<and>
      (err (buffer s) = None \<longrightarrow> unat (fileSize s) = length (stream s)))"

text \<open>What a write leaves of the handle as it was.\<close>

definition same_handle :: "os_file \<Rightarrow> os_file \<Rightarrow> bool" where
  "same_handle f f' =
     (capacity f' = capacity f \<and> closed f' = closed f \<and> linked f' = linked f \<and>
      append_mode f' = append_mode f)"

text \<open>What the loop of \<open>Write\<close> establishes on an appendable handle.\<close>

definition loop_post :: "writer \<Rightarrow> os_file \<Rightarrow> byte list \<Rightarrow> nat \<Rightarrow> writer \<Rightarrow> os_file \<Rightarrow> byte list \<Rightarrow> nat \<Rightarrow> bool" where
  "loop_post b f p nn b' f' p' nn' =
     (content f' @ buf b' @ p' = content f @ buf b @ p \<and> at_end f' \<and>
      nn' + length p' = nn + length p \<and> same_handle f f' \<and> bufsize b' = bufsize b \<and>
      (length (content f) \<le> capacity f \<longrightarrow> length (content f') \<le> capacity f') \<and>
      (length (buf b) \<le> bufsize b \<longrightarrow> length (buf b') \<le> bufsize b') \<and>
      (err b' = None \<longrightarrow> length p' \<le> Available b' \<and> err b = None))"

section \<open>Lemmas on the library model\<close>

lemma same_handle_refl [simp]: "same_handle f f"
  by (simp add: same_handle_def)

lemma same_handle_trans: "same_handle f g \<Longrightarrow> same_handle g h \<Longrightarrow> same_handle f h"
  by (simp add: same_handle_def)

lemma write_bytes_end [simp]: "write_bytes c (length c) q = c @ q"
  by (simp add: write_bytes_def)

lemma file_Write_at_end:
  assumes "file_Write f p = ((k, e), f')" and "at_end f"
  shows "content f' = content f @ take k p" and "at_end f'" and "k \<le> length p"
    and "e = None \<Longrightarrow> k = length p" and "same_handle f f'"
    and "length (content f) \<le> capacity f \<Longrightarrow> length (content f') \<le> capacity f'"
    and "closed f \<Longrightarrow> k = 0"
    and "\<not> closed f \<Longrightarrow> k = min (length p) (capacity f - length (content f))"
  using assms
  by (auto simp: file_Write_def Let_def at_end_def same_handle_def split: if_splits)

lemma Flush_at_end:
  assumes "Flush b f = (e, b', f')" and "at_end f"
  shows "content f' @ buf b' = content f @ buf b" and "at_end f'" and "e = err b'"
    and "e = None \<Longrightarrow> buf b' = [] \<and> err b = None"
    and "same_handle f f'" and "bufsize b' = bufsize b"
    and "length (buf b') \<le> length (buf b)"
    and "length (content f) \<le> capacity f \<Longrightarrow> length (content f') \<le> capacity f'"
    and "err b \<noteq> None \<Longrightarrow> b' = b \<and> f' = f"
proof -
  show "content f' @ buf b' = content f @ buf b"
    using assms
    by (auto simp: Flush_def Let_def Buffered_def split: if_splits prod.splits
             dest!: file_Write_at_end(1))
  show "at_end f'"
    using assms
    by (auto simp: Flush_def Let_def Buffered_def split: if_splits prod.splits
             dest: file_Write_at_end(2))
  show "e = err b'"
    using assms
    by (auto simp: Flush_def Let_def Buffered_def split: if_splits prod.splits)
  show "e = None \<Longrightarrow> buf b' = [] \<and> err b = None"
    using assms
    by (auto simp: Flush_def Let_def Buffered_def split: if_splits prod.splits)
  show "same_handle f f'"
    using assms
    by (auto simp: Flush_def Let_def Buffered_def split: if_splits prod.splits
             dest: file_Write_at_end(5))
  show "bufsize b' = bufsize b"
    using assms
    by (auto simp: Flush_def Let_def Buffered_def split: if_splits prod.splits)
  show "length (buf b') \<le> length (buf b)"
    using assms
    by (auto simp: Flush_def Let_def Buffered_def split: if_splits prod.splits)
  show "length (content f) \<le> capacity f \<Longrightarrow> length (content f') \<le> capacity f'"
    using assms
    by (auto simp: Flush_def Let_def Buffered_def split: if_splits prod.splits
             dest: file_Write_at_end(6))
  show "err b \<noteq> None \<Longrightarrow> b' = b \<and> f' = f"
    using assms
    by (auto simp: Flush_def)
qed

lemma Write_loop_at_end:
  "Write_loop b f p nn = (b', f', p', nn') \<Longrightarrow> at_end f \<Longrightarrow> loop_post b f p nn b' f' p' nn'"
proof (induction b f p nn rule: Write_loop.induct)
  case (1 b f p nn)
  show ?case
  proof (cases "length p > Available b \<and> err b = None")
    case False
    with "1.prems" show ?thesis
      by (auto simp: Write_loop.simps[of b f p nn] loop_post_def)
  next
    case enter: True
    show ?thesis
    proof (cases "Buffered b = 0")
      case True
      obtain n e f1 where fw: "file_Write f p = ((n, e), f1)"
        by (metis prod.exhaust)
      from "1.prems"(1) enter True fw
      have rec: "Write_loop (b\<lparr>err := e\<rparr>) f1 (drop n p) (nn + n) = (b', f', p', nn')"
        by (simp add: Write_loop.simps[of b f p nn])
      note W = file_Write_at_end[OF fw "1.prems"(2)]
      from "1.IH"(1)[OF enter True fw[symmetric] refl rec W(2)]
      have post: "loop_post (b\<lparr>err := e\<rparr>) f1 (drop n p) (nn + n) b' f' p' nn'" .
      from True have bempty: "buf b = []" by (simp add: Buffered_def)
      have "content f1 @ drop n p = content f @ p"
        using W(1) by simp
      with post W bempty enter show ?thesis
        by (auto simp: loop_post_def dest: same_handle_trans)
    next
      case False
      define n where "n = min (Available b) (length p)"
      obtain e b1 f1 where fl: "Flush (b\<lparr>buf := buf b @ take n p\<rparr>) f = (e, b1, f1)"
        by (metis prod.exhaust)
      from "1.prems"(1) enter False fl
      have rec: "Write_loop b1 f1 (drop n p) (nn + n) = (b', f', p', nn')"
        by (simp add: Write_loop.simps[of b f p nn] n_def Let_def)
      note F = Flush_at_end[OF fl "1.prems"(2)]
      from "1.IH"(2)[OF enter False n_def fl[symmetric] refl rec F(2)]
      have post: "loop_post b1 f1 (drop n p) (nn + n) b' f' p' nn'" .
      have nle: "n \<le> length p" by (simp add: n_def)
      have "content f1 @ buf b1 @ drop n p = content f @ buf b @ p"
      proof -
        from F(1) have "content f1 @ buf b1 = content f @ buf b @ take n p" by simp
        then have "(content f1 @ buf b1) @ drop n p = (content f @ buf b @ take n p) @ drop n p"
          by (rule arg_cong)
        then show ?thesis by simp
      qed
      moreover have "length (buf b) \<le> bufsize b \<Longrightarrow> length (buf b1) \<le> bufsize b1"
        using F(6,7) by (simp add: n_def Available_def)
      moreover have "err b1 = None \<Longrightarrow> err b = None"
        using enter by simp
      ultimately show ?thesis
        using post F(5,6,8) nle
        by (auto simp: loop_post_def dest: same_handle_trans)
    qed
  qed
qed

lemma Write_loop_err:
  "err b \<noteq> None \<Longrightarrow> Write_loop b f p nn = (b, f, p, nn)"
  by (auto simp: Write_loop.simps[of b f p nn])

lemma suffix_split:
  assumes "xs @ p' = ys @ p" and "n + length p' = length p"
  shows "xs = ys @ take n p" and "p' = drop n p"
proof -
  from assms have len: "length xs = length ys + n"
    by (metis add_diff_cancel_right' length_append add.assoc add.commute)
  from assms(1) have "take (length xs) (xs @ p') = take (length xs) (ys @ p)" by simp
  with len show "xs = ys @ take n p" by simp
  from assms(1) have "drop (length xs) (xs @ p') = drop (length xs) (ys @ p)" by simp
  with len show "p' = drop n p" by simp
qed

lemma Write_at_end:
  assumes "Write b f p = ((nn, e), b', f')" and "at_end f"
  shows "at_end f'" and "same_handle f f'" and "bufsize b' = bufsize b" and "e = err b'"
    and "content f' @ buf b' = content f @ buf b @ take nn p"
    and "nn \<le> length p"
    and "e = None \<Longrightarrow> nn = length p \<and> err b = None"
    and "length (content f) \<le> capacity f \<Longrightarrow> length (content f') \<le> capacity f'"
    and "length (buf b) \<le> bufsize b \<Longrightarrow> length (buf b') \<le> bufsize b'"
proof -
  obtain b1 f1 p1 n1 where wl: "Write_loop b f p 0 = (b1, f1, p1, n1)"
    by (metis prod.exhaust)
  from Write_loop_at_end[OF wl assms(2)]
  have post: "loop_post b f p 0 b1 f1 p1 n1" .
  then have eq: "(content f1 @ buf b1) @ p1 = (content f @ buf b) @ p"
    and n1: "n1 + length p1 = length p"
    by (simp_all add: loop_post_def)
  note sp = suffix_split[OF eq n1]
  show "at_end f'" using assms(1) wl post
    by (auto simp: Write_def loop_post_def split: if_splits)
  show "same_handle f f'" using assms(1) wl post
    by (auto simp: Write_def loop_post_def split: if_splits)
  show "bufsize b' = bufsize b" using assms(1) wl post
    by (auto simp: Write_def loop_post_def split: if_splits)
  show "e = err b'" using assms(1) wl
    by (auto simp: Write_def split: if_splits)
  show "nn \<le> length p" using assms(1) wl n1
    by (auto simp: Write_def split: if_splits)
  show "e = None \<Longrightarrow> nn = length p \<and> err b = None" using assms(1) wl n1 post
    by (auto simp: Write_def loop_post_def split: if_splits)
  show "length (content f) \<le> capacity f \<Longrightarrow> length (content f') \<le> capacity f'"
    using assms(1) wl post
    by (auto simp: Write_def loop_post_def split: if_splits)
  show "length (buf b) \<le> bufsize b \<Longrightarrow> length (buf b') \<le> bufsize b'"
    using assms(1) wl post
    by (auto simp: Write_def loop_post_def Available_def split: if_splits)
  show "content f' @ buf b' = content f @ buf b @ take nn p"
  proof (cases "err b1 = None")
    case True
    with assms(1) wl have "f' = f1" "buf b' = buf b1 @ p1" "nn = n1 + length p1"
      by (auto simp: Write_def)
    with eq n1 show ?thesis by simp
  next
    case False
    with assms(1) wl have "f' = f1" "b' = b1" "nn = n1"
      by (auto simp: Write_def)
    with sp(1) show ?thesis by simp
  qed
qed

lemma length_PutUint64 [simp]: "length (PutUint64 v) = 8"
  by (simp add: PutUint64_def)

lemma byte_part: "bit (push_bit k (ucast (ucast (drop_bit k (v::64 word)) :: 8 word)) :: 64 word) n
   \<longleftrightarrow> k \<le> n \<and> n < k + 8 \<and> n < 64 \<and> bit v n"
  by (auto simp: bit_simps)

lemma byte0: "bit (ucast (ucast (v::64 word) :: 8 word) :: 64 word) n \<longleftrightarrow> n < 8 \<and> bit v n"
  by (auto simp: bit_simps)

lemma be_join:
  "ucast (ucast v :: 8 word) OR push_bit 8 (ucast (ucast (drop_bit 8 v) :: 8 word))
   OR push_bit 16 (ucast (ucast (drop_bit 16 v) :: 8 word))
   OR push_bit 24 (ucast (ucast (drop_bit 24 v) :: 8 word))
   OR push_bit 32 (ucast (ucast (drop_bit 32 v) :: 8 word))
   OR push_bit 40 (ucast (ucast (drop_bit 40 v) :: 8 word))
   OR push_bit 48 (ucast (ucast (drop_bit 48 v) :: 8 word))
   OR push_bit 56 (ucast (ucast (drop_bit 56 v) :: 8 word)) = (v :: 64 word)"
proof (rule bit_word_eqI)
  fix n :: nat
  assume "n < LENGTH(64)"
  then have n: "n < 64" by simp
  then consider "n < 8" | "8 \<le> n \<and> n < 16" | "16 \<le> n \<and> n < 24" | "24 \<le> n \<and> n < 32"
    | "32 \<le> n \<and> n < 40" | "40 \<le> n \<and> n < 48" | "48 \<le> n \<and> n < 56" | "56 \<le> n \<and> n < 64"
    by linarith
  then show "bit (ucast (ucast v :: 8 word) OR push_bit 8 (ucast (ucast (drop_bit 8 v) :: 8 word))
   OR push_bit 16 (ucast (ucast (drop_bit 16 v) :: 8 word))
   OR push_bit 24 (ucast (ucast (drop_bit 24 v) :: 8 word))
   OR push_bit 32 (ucast (ucast (drop_bit 32 v) :: 8 word))
   OR push_bit 40 (ucast (ucast (drop_bit 40 v) :: 8 word))
   OR push_bit 48 (ucast (ucast (drop_bit 48 v) :: 8 word))
   OR push_bit 56 (ucast (ucast (drop_bit 56 v) :: 8 word)) :: 64 word) n = bit v n"
    by cases (simp_all only: bit_or_iff byte_part byte0, simp_all)
qed

lemma Uint64_PutUint64 [simp]: "Uint64 (PutUint64 v) = Some v"
  using be_join[of v] by (simp add: Uint64_def PutUint64_def)

lemma Append_at_end:
  assumes "Append s d = ((n, pos, e), s')" and "at_end (File s)"
  shows "at_end (File s')" and "same_handle (File s) (File s')"
    and "bufsize (buffer s') = bufsize (buffer s)" and "e = err (buffer s')"
    and "prefix (stream s) (stream s')"
    and "e = None \<Longrightarrow> stream s' = stream s @ encode_record d \<and> err (buffer s) = None \<and>
           n = of_nat (length d) + 8"
    and "length (content (File s)) \<le> capacity (File s)
         \<Longrightarrow> length (content (File s')) \<le> capacity (File s')"
    and "length (buf (buffer s)) \<le> bufsize (buffer s)
         \<Longrightarrow> length (buf (buffer s')) \<le> bufsize (buffer s')"
proof -
  define hdr where "hdr = PutUint64 (of_nat (length d))"
  obtain k1 e1 b1 f1 where w1: "Write (buffer s) (File s) hdr = ((k1, e1), b1, f1)"
    by (metis prod.exhaust)
  note W1 = Write_at_end[OF w1 assms(2)]
  obtain k2 e2 b2 f2 where w2: "Write b1 f1 d = ((k2, e2), b2, f2)"
    by (metis prod.exhaust)
  note W2 = Write_at_end[OF w2 W1(1)]
  have st1: "content f1 @ buf b1 = stream s @ take k1 hdr"
    using W1(5) by (simp add: stream_def)
  have st2: "content f2 @ buf b2 = stream s @ take k1 hdr @ take k2 d"
    using W2(5) st1 by (metis append.assoc)
  have bw: "binary_Write (buffer s) (File s) (of_nat (length d)) = (e1, b1, f1)"
    using w1 by (simp add: binary_Write_def hdr_def)
  consider (hdr_fails) "e1 \<noteq> None" "e = e1" "s' = s\<lparr>File := f1, buffer := b1\<rparr>"
    | (data_fails) "e1 = None" "e2 \<noteq> None" "e = e2" "s' = s\<lparr>File := f2, buffer := b2\<rparr>"
    | (ok) "e1 = None" "e2 = None" "e = None" "File s' = f2" "buffer s' = b2"
        "n = of_nat k2 + 8"
    using assms(1) bw w2
    by (auto simp: Append_def Let_def dataLengthWeightInBytes_def split: if_splits)
  then have main: "at_end (File s') \<and> same_handle (File s) (File s') \<and>
      bufsize (buffer s') = bufsize (buffer s) \<and> e = err (buffer s') \<and>
      prefix (stream s) (stream s') \<and>
      (e = None \<longrightarrow> stream s' = stream s @ encode_record d \<and> err (buffer s) = None \<and>
         n = of_nat (length d) + 8) \<and>
      (length (content (File s)) \<le> capacity (File s)
         \<longrightarrow> length (content (File s')) \<le> capacity (File s')) \<and>
      (length (buf (buffer s)) \<le> bufsize (buffer s)
         \<longrightarrow> length (buf (buffer s')) \<le> bufsize (buffer s'))"
  proof cases
    case hdr_fails
    then show ?thesis
      using W1(1,2,3,4,8,9) st1 by (auto simp: stream_def)
  next
    case data_fails
    then show ?thesis
      using W1(1,2,3,8,9) W2(1,2,3,4,8,9) st2 same_handle_trans[OF W1(2) W2(2)]
      by (auto simp: stream_def)
  next
    case ok
    from ok W1(7) W2(7) have full: "k1 = length hdr" "k2 = length d" "err (buffer s) = None"
      by simp_all
    with st2 have "content f2 @ buf b2 = stream s @ encode_record d"
      by (simp add: encode_record_def hdr_def)
    with ok full show ?thesis
      using W1(1,2,3,8,9) W2(1,2,3,4,8,9) same_handle_trans[OF W1(2) W2(2)]
      by (simp add: stream_def)
  qed
  from main show "at_end (File s')" by blast
  from main show "same_handle (File s) (File s')" by blast
  from main show "bufsize (buffer s') = bufsize (buffer s)" by blast
  from main show "e = err (buffer s')" by blast
  from main show "prefix (stream s) (stream s')" by blast
  from main show "e = None \<Longrightarrow> stream s' = stream s @ encode_record d \<and>
      err (buffer s) = None \<and> n = of_nat (length d) + 8"
    by blast
  from main show "length (content (File s)) \<le> capacity (File s)
         \<Longrightarrow> length (content (File s')) \<le> capacity (File s')" by blast
  from main show "length (buf (buffer s)) \<le> bufsize (buffer s)
         \<Longrightarrow> length (buf (buffer s')) \<le> bufsize (buffer s')" by blast
qed

lemma Append_result:
  assumes "Append s d = ((n, pos, e), s')"
  shows "e \<noteq> None \<Longrightarrow> n = 0 \<and> pos = 0 \<and> fileSize s' = fileSize s"
    and "e = None \<Longrightarrow> pos = fileSize s \<and> fileSize s' = fileSize s + n"
proof -
  obtain e1 b1 f1 where bw: "binary_Write (buffer s) (File s) (of_nat (length d)) = (e1, b1, f1)"
    by (metis prod.exhaust)
  obtain k2 e2 b2 f2 where w2: "Write b1 f1 d = ((k2, e2), b2, f2)"
    by (metis prod.exhaust)
  from assms bw w2 show "e \<noteq> None \<Longrightarrow> n = 0 \<and> pos = 0 \<and> fileSize s' = fileSize s"
    by (auto simp: Append_def Let_def split: if_splits)
  from assms bw w2 show "e = None \<Longrightarrow> pos = fileSize s \<and> fileSize s' = fileSize s + n"
    by (auto simp: Append_def Let_def split: if_splits)
qed

lemma sint_small: 
  assumes "unat (w::64 word) < 2 ^ 63" shows "sint w = int (unat w)"
proof -
  have "int (unat w) < int (2 ^ 63)" using assms by (rule iffD2[OF of_nat_less_iff])
  then have "int (unat w) < 2 ^ 63" by simp
  then have "uint w < 2 ^ 63" by (simp only: uint_nat)
  moreover have "- (2 ^ 63) \<le> uint w"
  proof -
    have "(0::int) \<le> uint w" by simp
    moreover have "- (2 ^ 63) \<le> (0::int)" by simp
    ultimately show ?thesis by (rule order_trans[rotated])
  qed
  ultimately have "signed_take_bit 63 (uint w) = uint w"
    by (simp add: signed_take_bit_int_eq_self)
  then have "sint w = uint w" by (simp add: sint_uint)
  then show ?thesis by (simp only: uint_nat)
qed

lemma unat_of_nat_64: "n < 2 ^ 64 \<Longrightarrow> unat (of_nat n :: 64 word) = n"
  by (simp add: unat_of_nat)

lemma unat_plus_64: "unat (p :: 64 word) + unat q < 2 ^ 64 \<Longrightarrow> unat (p + q) = unat p + unat q"
  using unat_add_lem[of p q] by simp

lemma file_ReadAt_in_range:
  assumes "\<not> closed f" and "unat off + length b \<le> length (content f)" and "unat off < 2 ^ 63"
  shows "file_ReadAt f b off = (take (length b) (drop (unat off) (content f)), length b, None)"
proof -
  from assms(3) have "\<not> sint off < 0" by (simp add: sint_small)
  moreover from assms(2) have "length (take (length b) (drop (unat off) (content f))) = length b"
    by simp
  ultimately show ?thesis using assms(1)
    by (simp add: file_ReadAt_def Let_def)
qed

lemma record_at_header:
  assumes "record_at bytes p d"
  shows "take 8 (drop p bytes) = PutUint64 (of_nat (length d))"
    and "take (length d) (drop (p + 8) bytes) = d"
proof -
  from assms have eq: "take (8 + length d) (drop p bytes) = PutUint64 (of_nat (length d)) @ d"
    by (simp add: record_at_def encode_record_def)
  have "take 8 (drop p bytes) = take 8 (take (8 + length d) (drop p bytes))" by simp
  also have "\<dots> = PutUint64 (of_nat (length d))" by (simp only: eq) simp
  finally show "take 8 (drop p bytes) = PutUint64 (of_nat (length d))" .
  have "take (length d) (drop (p + 8) bytes) = drop 8 (take (8 + length d) (drop p bytes))"
    by (simp add: drop_take add.commute)
  also have "\<dots> = d" by (simp only: eq) simp
  finally show "take (length d) (drop (p + 8) bytes) = d" .
qed

lemma Read_record:
  assumes fl: "Flush (buffer s) (File s) = (None, b1, f1)"
    and open1: "\<not> closed f1"
    and rec: "record_at (content f1) (unat pos) d"
    and small: "length (content f1) < 2 ^ 63"
  shows "Read s pos = ((d, None), s\<lparr>File := f1, buffer := b1\<rparr>)"
proof -
  from rec have bound: "unat pos + 8 + length d \<le> length (content f1)"
    by (simp add: record_at_def)
  with small have lt: "unat pos + 8 + length d < 2 ^ 63" by linarith
  note hd = record_at_header[OF rec]
  have r1: "file_ReadAt f1 (replicate dataLengthWeightInBytes 0) pos
            = (PutUint64 (of_nat (length d)), 8, None)"
    using file_ReadAt_in_range[OF open1, of pos "replicate 8 0"] bound lt hd(1)
    by (simp add: dataLengthWeightInBytes_def)
  have len64: "length d < 2 ^ 64" using lt by simp
  have ulen: "unat (of_nat (length d) :: uint64) = length d"
    using len64 by (rule unat_of_nat_64)
  have mk: "make_bytes (of_nat (length d)) = Some (replicate (length d) 0)"
    using lt by (simp add: make_bytes_def ulen)
  have "unat pos + unat (8 :: uint64) < 2 ^ 64" using lt by simp
  then have up8: "unat (pos + 8) = unat pos + 8"
    using unat_plus_64[of pos 8] by simp
  have r2: "file_ReadAt f1 (replicate (length d) 0) (pos + of_nat dataLengthWeightInBytes)
            = (d, length d, None)"
    using file_ReadAt_in_range[OF open1, of "pos + 8" "replicate (length d) 0"] bound lt hd(2)
    by (simp add: dataLengthWeightInBytes_def up8)
  show ?thesis
    by (simp add: Read_def fl r1 mk r2 Let_def)
qed

lemma Write_fits:
  "err b = None \<Longrightarrow> length p \<le> Available b \<Longrightarrow>
   Write b f p = ((length p, None), b\<lparr>buf := buf b @ p\<rparr>, f)"
  by (simp add: Write_def Write_loop.simps[of b f p 0])

lemma Append_fits:
  assumes "err (buffer s) = None" and "length (buf (buffer s)) + 8 + length d \<le> bufsize (buffer s)"
  shows "Append s d = ((of_nat (length d) + 8, fileSize s, None),
           s\<lparr>buffer := (buffer s)\<lparr>buf := buf (buffer s) @ encode_record d\<rparr>,
             fileSize := fileSize s + (of_nat (length d) + 8)\<rparr>)"
proof -
  let ?hdr = "PutUint64 (of_nat (length d))"
  have w1: "Write (buffer s) (File s) ?hdr = ((8, None), (buffer s)\<lparr>buf := buf (buffer s) @ ?hdr\<rparr>, File s)"
    using Write_fits[of "buffer s" ?hdr "File s"] assms by (simp add: Available_def)
  have w2: "Write ((buffer s)\<lparr>buf := buf (buffer s) @ ?hdr\<rparr>) (File s) d =
     ((length d, None), (buffer s)\<lparr>buf := buf (buffer s) @ ?hdr @ d\<rparr>, File s)"
    using Write_fits[of "(buffer s)\<lparr>buf := buf (buffer s) @ ?hdr\<rparr>" d "File s"] assms
    by (simp add: Available_def)
  show ?thesis
    by (simp add: Append_def binary_Write_def w1 w2 Let_def dataLengthWeightInBytes_def encode_record_def)
qed

section \<open>The invariant of the store\<close>

lemma inv_bound:
  assumes "length c \<le> cap" and "cap \<le> max_file_size" and "length b \<le> defaultBufSize"
  shows "length c + length b < 2 ^ 64"
proof -
  have "length c + length b \<le> (2 ^ 63 - 1) + 4096"
    using assms by (simp add: max_file_size_def defaultBufSize_def)
  also have "\<dots> < (2 ^ 64 :: nat)" by simp
  finally show ?thesis .
qed

lemma store_inv_stream_bound: "store_inv s \<Longrightarrow> length (stream s) < 2 ^ 64"
  using inv_bound[of "content (File s)" "capacity (File s)" "buf (buffer s)"]
  by (simp add: store_inv_def stream_def)

lemma store_inv_newStore:
  assumes "newStore f = Inr s" and "at_end f" and "length (content f) \<le> capacity f"
    and "capacity f \<le> max_file_size"
  shows "store_inv s" and "stream s = content f" and "unat (fileSize s) = length (content f)"
    and "File s = f" and "buffer s = NewWriter"
proof -
  from assms(1) have s: "s = \<lparr>File = f, buffer = NewWriter, fileSize = of_nat (length (content f))\<rparr>"
    by (simp add: newStore_def split: if_splits)
  have "length (content f) + length ([] :: byte list) < 2 ^ 64"
    using assms(3,4) by (intro inv_bound) simp_all
  then have u: "unat (of_nat (length (content f)) :: uint64) = length (content f)"
    by (simp add: unat_of_nat_64)
  show "stream s = content f" by (simp add: s stream_def NewWriter_def)
  show "unat (fileSize s) = length (content f)" by (simp add: s u)
  show "store_inv s" using assms(2-4) u
    by (simp add: s store_inv_def stream_def NewWriter_def)
  show "File s = f" by (simp add: s)
  show "buffer s = NewWriter" by (simp add: s)
qed

lemma Append_cursor:
  assumes inv: "store_inv s" and app: "Append s d = ((n, p, None), s')"
  shows "store_inv s'" and "stream s' = stream s @ encode_record d"
    and "unat n = 8 + length d" and "unat p = length (stream s)"
    and "unat (fileSize s') = unat (fileSize s) + unat n"
proof -
  from inv have ae: "at_end (File s)" by (simp add: store_inv_def)
  note A = Append_at_end[OF app ae]
  note R = Append_result(2)[OF app]
  from A(6) have st: "stream s' = stream s @ encode_record d" and e0: "err (buffer s) = None"
    and n: "n = of_nat (length d) + 8" by simp_all
  from inv e0 have fs: "unat (fileSize s) = length (stream s)" by (simp add: store_inv_def)
  from inv A(3,7,8) A(2) have pre: "at_end (File s')" "length (content (File s')) \<le> capacity (File s')"
    "capacity (File s') \<le> max_file_size" "bufsize (buffer s') = defaultBufSize"
    "length (buf (buffer s')) \<le> bufsize (buffer s')"
    using A(1) by (simp_all add: store_inv_def same_handle_def)
  have "length (content (File s')) + length (buf (buffer s')) < 2 ^ 64"
    using pre by (intro inv_bound) simp_all
  moreover have "length (stream s') = length (stream s) + (length d + 8)"
    by (simp add: st encode_record_def)
  ultimately have bound: "length (stream s) + (length d + 8) < 2 ^ 64"
    by (simp add: stream_def)
  have n': "n = of_nat (length d + 8)" by (simp add: n)
  have "length d + 8 < 2 ^ 64" using bound by simp
  then have un: "unat n = length d + 8" unfolding n' by (rule unat_of_nat_64)
  have "fileSize s' = fileSize s + n" using R by simp
  moreover have "unat (fileSize s) + unat n < 2 ^ 64" using bound fs un by simp
  ultimately have uf: "unat (fileSize s') = unat (fileSize s) + unat n"
    by (simp add: unat_plus_64)
  show "stream s' = stream s @ encode_record d" by (rule st)
  show "unat n = 8 + length d" using un by simp
  show "unat p = length (stream s)" using R fs by simp
  show "unat (fileSize s') = unat (fileSize s) + unat n" by (rule uf)
  have "unat (fileSize s') = length (stream s')"
    using uf fs un st by (simp add: encode_record_def)
  with pre show "store_inv s'" by (simp add: store_inv_def)
qed

lemma store_inv_Append:
  assumes inv: "store_inv s" and app: "Append s d = (r, s')"
  shows "store_inv s'"
proof -
  obtain n p e where r: "r = (n, p, e)" by (metis prod.exhaust)
  show ?thesis
  proof (cases e)
    case None
    with app r inv show ?thesis by (auto intro: Append_cursor(1))
  next
    case (Some x)
    from inv have ae: "at_end (File s)" by (simp add: store_inv_def)
    note A = Append_at_end[OF app[unfolded r] ae]
    from Append_result(1)[OF app[unfolded r]] Some have fs: "fileSize s' = fileSize s" by simp
    from A(5) have "length (stream s) \<le> length (stream s')" by (rule prefix_length_le)
    with inv fs have "unat (fileSize s') \<le> length (stream s')" by (simp add: store_inv_def)
    moreover from A(4)[symmetric] Some have "err (buffer s') \<noteq> None" by simp
    ultimately show ?thesis
      using inv A(1,2,3,7,8) by (auto simp: store_inv_def same_handle_def)
  qed
qed

lemma Flush_store:
  assumes inv: "store_inv s" and fl: "Flush (buffer s) (File s) = (e, b1, f1)"
  shows "store_inv (s\<lparr>File := f1, buffer := b1\<rparr>)"
    and "stream (s\<lparr>File := f1, buffer := b1\<rparr>) = stream s"
    and "e = None \<Longrightarrow> content f1 = stream s \<and> buf b1 = [] \<and> unat (fileSize s) = length (stream s)"
proof -
  from inv have ae: "at_end (File s)" by (simp add: store_inv_def)
  note F = Flush_at_end[OF fl ae]
  show st: "stream (s\<lparr>File := f1, buffer := b1\<rparr>) = stream s"
    using F(1) by (simp add: stream_def)
  have "err b1 = None \<Longrightarrow> err (buffer s) = None" using F(3,4) by simp
  with inv F(2,5,6,7,8) st show "store_inv (s\<lparr>File := f1, buffer := b1\<rparr>)"
    by (auto simp: store_inv_def same_handle_def)
  show "e = None \<Longrightarrow> content f1 = stream s \<and> buf b1 = [] \<and> unat (fileSize s) = length (stream s)"
    using F(1,4) inv by (auto simp: stream_def store_inv_def)
qed

lemma Read_state:
  assumes "Read s p = (r, s')"
  shows "\<exists>e b1 f1. Flush (buffer s) (File s) = (e, b1, f1) \<and> s' = s\<lparr>File := f1, buffer := b1\<rparr>"
proof -
  obtain e b1 f1 where fl: "Flush (buffer s) (File s) = (e, b1, f1)"
    by (metis prod.exhaust)
  with assms have "s' = s\<lparr>File := f1, buffer := b1\<rparr>"
    by (auto simp: Read_def Let_def split: if_splits prod.splits option.splits)
  with fl show ?thesis by blast
qed

lemma ReadAt_state:
  assumes "ReadAt s b off = (r, s')"
  shows "\<exists>e b1 f1. Flush (buffer s) (File s) = (e, b1, f1) \<and> s' = s\<lparr>File := f1, buffer := b1\<rparr>"
proof -
  obtain e b1 f1 where fl: "Flush (buffer s) (File s) = (e, b1, f1)"
    by (metis prod.exhaust)
  with assms have "s' = s\<lparr>File := f1, buffer := b1\<rparr>"
    by (auto simp: ReadAt_def Let_def split: if_splits)
  with fl show ?thesis by blast
qed

lemma store_inv_Read:
  assumes "store_inv s" and "Read s p = (r, s')"
  shows "store_inv s'" and "stream s' = stream s" and "fileSize s' = fileSize s"
  using Read_state[OF assms(2)] Flush_store(1,2)[OF assms(1)] by auto

lemma store_inv_ReadAt:
  assumes "store_inv s" and "ReadAt s b off = (r, s')"
  shows "store_inv s'" and "stream s' = stream s" and "fileSize s' = fileSize s"
  using ReadAt_state[OF assms(2)] Flush_store(1,2)[OF assms(1)] by auto

lemma append_all_positions:
  "store_inv s \<Longrightarrow> append_all s ds = ((rs, None), s') \<Longrightarrow>
   store_inv s' \<and> length rs = length ds \<and>
   stream s' = stream s @ concat (map encode_record ds) \<and>
   unat (fileSize s') = unat (fileSize s) + sum_list (map (\<lambda>d. 8 + length d) ds) \<and>
   (\<forall>i<length ds. unat (fst (rs ! i)) = 8 + length (ds ! i) \<and>
      unat (snd (rs ! i)) = unat (fileSize s) + sum_list (map (\<lambda>d. 8 + length d) (take i ds)))"
proof (induction ds arbitrary: s rs)
  case Nil
  then show ?case by simp
next
  case (Cons d ds)
  obtain n p e s1 where app: "Append s d = ((n, p, e), s1)"
    by (metis prod.exhaust)
  obtain rs1 e1 s2 where rest: "append_all s1 ds = ((rs1, e1), s2)"
    by (metis prod.exhaust)
  from Cons.prems(2) app rest have e: "e = None" and e1: "e1 = None"
    and rs: "rs = (n, p) # rs1" and s2: "s2 = s'"
    by (auto split: if_splits)
  note C = Append_cursor[OF Cons.prems(1) app[unfolded e]]
  from Append_result(2)[OF app] e have p: "p = fileSize s" by simp
  from Cons.IH[OF C(1) rest[unfolded e1 s2]]
  have IH: "store_inv s'" "length rs1 = length ds"
    "stream s' = stream s1 @ concat (map encode_record ds)"
    "unat (fileSize s') = unat (fileSize s1) + sum_list (map (\<lambda>d. 8 + length d) ds)"
    "\<And>i. i < length ds \<Longrightarrow> unat (fst (rs1 ! i)) = 8 + length (ds ! i) \<and>
      unat (snd (rs1 ! i)) = unat (fileSize s1) + sum_list (map (\<lambda>d. 8 + length d) (take i ds))"
    by simp_all
  have "unat (fst (rs ! i)) = 8 + length ((d # ds) ! i) \<and>
      unat (snd (rs ! i)) = unat (fileSize s) + sum_list (map (\<lambda>d. 8 + length d) (take i (d # ds)))"
    if "i < length (d # ds)" for i
  proof (cases i)
    case 0
    then show ?thesis using C(3) p by (simp add: rs)
  next
    case (Suc j)
    with that have "j < length ds" by simp
    from IH(5)[OF this] C(3,5) Suc show ?thesis by (simp add: rs)
  qed
  with IH(1,2,3,4) C(2,3,5) show ?case
    by (simp add: rs)
qed

section \<open>Sequences of appends\<close>

lemma testData_length: "length testData = 15"
  by (simp add: testData_def)

lemma testDataLength_eq: "testDataLength = 23"
  by (simp add: testDataLength_def testData_length dataLengthWeightInBytes_def)

lemma example_run:
  "fst (append_all \<lparr>File = CreateTemp cap, buffer = NewWriter, fileSize = 0\<rparr>
          [testData, testData, testData]) = ([(23, 0), (23, 23), (23, 46)], None)"
  "fileSize (snd (append_all \<lparr>File = CreateTemp cap, buffer = NewWriter, fileSize = 0\<rparr>
          [testData, testData, testData])) = 69"
  by (simp_all add: Append_fits NewWriter_def defaultBufSize_def encode_record_def testData_length)

lemma sum_take_mono:
  assumes "i < j" and "j \<le> length ds"
  shows "sum_list (map f (take i ds)) + f (ds ! i) \<le> (sum_list (map f (take j ds)) :: nat)"
proof -
  from assms obtain k where j: "j = Suc i + k" by (metis less_iff_Suc_add add_Suc)
  from assms have i: "i < length ds" by simp
  have "take j ds = take (Suc i) ds @ take k (drop (Suc i) ds)"
    unfolding j by (rule take_add)
  moreover have "take (Suc i) ds = take i ds @ [ds ! i]"
    using i by (rule take_Suc_conv_app_nth)
  ultimately show ?thesis by simp
qed

lemma sum_take_replicate:
  "i \<le> k \<Longrightarrow> sum_list (map f (take i (replicate k d))) = i * (f d :: nat)"
  by (simp add: sum_list_replicate min_def)

section \<open>Reading what was appended\<close>

lemma Flush_closed:
  assumes "closed f" and "buf b \<noteq> []" and "err b = None"
  shows "Flush b f = (Some ErrClosed, b\<lparr>err := Some ErrClosed\<rparr>, f)"
  using assms by (simp add: Flush_def Buffered_def file_Write_def Let_def)

lemma Write_closed:
  assumes cl: "closed f" and w: "Write b f p = ((nn, None), b', f')"
  shows "buf b' = buf b @ p" and "f' = f"
proof -
  have fits: "\<not> (length p > Available b \<and> err b = None)"
  proof
    assume enter: "length p > Available b \<and> err b = None"
    have "\<exists>b1 f1 p1 n1. Write_loop b f p 0 = (b1, f1, p1, n1) \<and> err b1 \<noteq> None"
    proof (cases "Buffered b = 0")
      case True
      from cl have fw: "file_Write f p = ((0, Some ErrClosed), f)" by (simp add: file_Write_def)
      have "Write_loop b f p 0 = Write_loop (b\<lparr>err := Some ErrClosed\<rparr>) f p 0"
        using enter True fw by (simp add: Write_loop.simps[of b f p 0])
      also have "\<dots> = (b\<lparr>err := Some ErrClosed\<rparr>, f, p, 0)"
        by (rule Write_loop_err) simp
      finally show ?thesis by simp
    next
      case False
      define n where "n = min (Available b) (length p)"
      from False enter have fl: "Flush (b\<lparr>buf := buf b @ take n p\<rparr>) f
          = (Some ErrClosed, b\<lparr>buf := buf b @ take n p, err := Some ErrClosed\<rparr>, f)"
        using Flush_closed[OF cl, of "b\<lparr>buf := buf b @ take n p\<rparr>"]
        by (simp add: Buffered_def)
      have "Write_loop b f p 0
          = Write_loop (b\<lparr>buf := buf b @ take n p, err := Some ErrClosed\<rparr>) f (drop n p) n"
        using enter False fl by (simp add: Write_loop.simps[of b f p 0] n_def Let_def)
      also have "\<dots> = (b\<lparr>buf := buf b @ take n p, err := Some ErrClosed\<rparr>, f, drop n p, n)"
        by (rule Write_loop_err) simp
      finally show ?thesis by simp
    qed
    with w show False by (auto simp: Write_def)
  qed
  then have "Write_loop b f p 0 = (b, f, p, 0)"
    by (auto simp: Write_loop.simps[of b f p 0])
  with w show "buf b' = buf b @ p" and "f' = f"
    by (auto simp: Write_def split: if_splits)
qed

lemma Append_closed:
  assumes cl: "closed (File s)" and app: "Append s d = ((n, p, None), s')"
  shows "buf (buffer s') \<noteq> []"
proof -
  obtain k1 e1 b1 f1 where w1: "Write (buffer s) (File s) (PutUint64 (of_nat (length d))) = ((k1, e1), b1, f1)"
    by (metis prod.exhaust)
  obtain k2 e2 b2 f2 where w2: "Write b1 f1 d = ((k2, e2), b2, f2)"
    by (metis prod.exhaust)
  from app w1 w2 have e: "e1 = None" "e2 = None" and s': "buffer s' = b2"
    by (auto simp: Append_def binary_Write_def Let_def split: if_splits)
  from Write_closed[OF cl w1[unfolded e]] have b1: "buf b1 = buf (buffer s) @ PutUint64 (of_nat (length d))"
    and f1: "f1 = File s" by simp_all
  from cl f1 have "closed f1" by simp
  from Write_closed(1)[OF this w2[unfolded e]] b1 have "length (buf b2) \<ge> 8" by simp
  with s' show ?thesis by auto
qed

lemma Flush_open_ok:
  assumes "at_end f" and "err b = None" and "\<not> closed f"
    and "length (content f) + length (buf b) \<le> capacity f"
  shows "fst (Flush b f) = None"
proof (cases "buf b = []")
  case True
  with assms(2) show ?thesis by (simp add: Flush_def Buffered_def)
next
  case False
  obtain k e f' where fw: "file_Write f (buf b) = ((k, e), f')"
    by (metis prod.exhaust)
  from file_Write_at_end(8)[OF fw assms(1,3)] assms(4) have k: "k = length (buf b)" by simp
  with fw assms(3) have "e = None" by (auto simp: file_Write_def Let_def split: if_splits)
  with fw k assms(2) False show ?thesis by (simp add: Flush_def Buffered_def)
qed

lemma record_at_append: "record_at (bs @ encode_record d) (length bs) d"
  by (simp add: record_at_def encode_record_def)

lemma record_at_prefix:
  assumes "prefix bs bs'" and "record_at bs p d"
  shows "record_at bs' p d"
proof -
  from assms(1) obtain zs where bs': "bs' = bs @ zs" by (auto simp: prefix_def)
  from assms(2) have le: "p + 8 + length d \<le> length bs"
    and eq: "take (8 + length d) (drop p bs) = encode_record d"
    by (simp_all add: record_at_def)
  from le have "take (8 + length d) (drop p (bs @ zs)) = take (8 + length d) (drop p bs)"
    by simp
  with le eq show ?thesis by (simp add: record_at_def bs')
qed

lemma Read_after_Append:
  assumes inv: "store_inv s" and app: "Append s d = ((n, p, None), s1)"
    and rd: "Read s1 p = ((r, e), s2)"
  shows "e = fst (Flush (buffer s1) (File s1)) \<and> (e = None \<longrightarrow> r = d) \<and>
         (\<not> closed (File s1) \<and> length (stream s1) \<le> capacity (File s1) \<longrightarrow> e = None)"
proof -
  note C = Append_cursor[OF inv app]
  from C(1) have ae1: "at_end (File s1)" by (simp add: store_inv_def)
  from inv have ae: "at_end (File s)" by (simp add: store_inv_def)
  from Append_at_end(4)[OF app ae] have err1: "err (buffer s1) = None" by simp
  obtain e' b1 f1 where fl: "Flush (buffer s1) (File s1) = (e', b1, f1)"
    by (metis prod.exhaust)
  have res: "e = e' \<and> (e = None \<longrightarrow> r = d)"
  proof (cases e')
    case (Some x)
    with rd fl show ?thesis by (auto simp: Read_def)
  next
    case None
    note F = Flush_store[OF C(1) fl]
    from F(3) None have c1: "content f1 = stream s1" by simp
    have open1: "\<not> closed f1"
    proof
      assume "closed f1"
      with Flush_at_end(5)[OF fl ae1] have cl1: "closed (File s1)" by (simp add: same_handle_def)
      with Append_at_end(2)[OF app ae] have "closed (File s)" by (simp add: same_handle_def)
      from Append_closed[OF this app] have "buf (buffer s1) \<noteq> []" .
      from Flush_closed[OF cl1 this err1] fl None show False by simp
    qed
    have rec: "record_at (content f1) (unat p) d"
      unfolding c1 C(2) C(4) by (rule record_at_append)
    from F(1) have "length (content f1) \<le> max_file_size" by (simp add: store_inv_def)
    then have small: "length (content f1) < 2 ^ 63" by (simp add: max_file_size_def)
    from Read_record[OF fl[unfolded None] open1 rec small] rd None show ?thesis by simp
  qed
  moreover have "e = None" if "\<not> closed (File s1)" "length (stream s1) \<le> capacity (File s1)"
  proof -
    from Flush_open_ok[OF ae1 err1 that(1)] that(2) fl res show ?thesis
      by (simp add: stream_def)
  qed
  ultimately show ?thesis using fl by simp
qed

lemma Flush_idem:
  assumes "Flush b f = (None, b1, f1)"
  shows "Flush b1 f1 = (None, b1, f1)"
  using assms
  by (auto simp: Flush_def Let_def Buffered_def split: if_splits prod.splits)

lemma append_all_records:
  "store_inv s \<Longrightarrow> append_all s ds = ((rs, None), s') \<Longrightarrow>
   \<forall>i<length ds. record_at (stream s') (unat (snd (rs ! i))) (ds ! i)"
proof (induction ds arbitrary: s rs)
  case Nil
  then show ?case by simp
next
  case (Cons d ds)
  obtain n p e s1 where app: "Append s d = ((n, p, e), s1)"
    by (metis prod.exhaust)
  obtain rs1 e1 s2 where rest: "append_all s1 ds = ((rs1, e1), s2)"
    by (metis prod.exhaust)
  from Cons.prems(2) app rest have e: "e = None" and e1: "e1 = None"
    and rs: "rs = (n, p) # rs1" and s2: "s2 = s'"
    by (auto split: if_splits)
  note C = Append_cursor[OF Cons.prems(1) app[unfolded e]]
  note P = append_all_positions[OF C(1) rest[unfolded e1 s2]]
  have first: "record_at (stream s1) (unat p) d"
    unfolding C(2) C(4) by (rule record_at_append)
  from P have "prefix (stream s1) (stream s')" by (simp add: prefix_def)
  from record_at_prefix[OF this first] have r0: "record_at (stream s') (unat p) d" .
  from Cons.IH[OF C(1) rest[unfolded e1 s2]]
  have IH: "\<And>i. i < length ds \<Longrightarrow> record_at (stream s') (unat (snd (rs1 ! i))) (ds ! i)"
    by simp
  show ?case
  proof (intro allI impI)
    fix i assume "i < length (d # ds)"
    then show "record_at (stream s') (unat (snd (rs ! i))) ((d # ds) ! i)"
      using r0 IH by (cases i) (simp_all add: rs)
  qed
qed

lemma Close_state:
  assumes "Close s = (None, s')"
  shows "\<exists>b1 f1. Flush (buffer s) (File s) = (None, b1, f1) \<and> \<not> closed f1 \<and>
           s' = s\<lparr>File := f1\<lparr>closed := True\<rparr>, buffer := b1\<rparr>"
proof -
  obtain e b1 f1 where fl: "Flush (buffer s) (File s) = (e, b1, f1)"
    by (metis prod.exhaust)
  with assms show ?thesis
    by (auto simp: Close_def file_Close_def Let_def split: if_splits)
qed

lemma reopen_read:
  assumes inv: "store_inv s" and cl: "Close s = (None, s')" and lk: "linked (File s)"
    and op: "openFile (File s') = (f2, sz)" and new: "newStore f2 = Inr s2"
  shows "length (content (File s')) = unat (fileSize s)" and "fileSize s2 = fileSize s"
    and "sz = unat (fileSize s)"
    and "record_at (stream s) (unat p) d \<Longrightarrow> Read s2 p = ((d, None), s2)"
    and "store_inv s2"
proof -
  from Close_state[OF cl] obtain b1 f1 where fl: "Flush (buffer s) (File s) = (None, b1, f1)"
    and s': "s' = s\<lparr>File := f1\<lparr>closed := True\<rparr>, buffer := b1\<rparr>" by blast
  note F = Flush_store[OF inv fl]
  from F(3) have c1: "content f1 = stream s" and fs: "unat (fileSize s) = length (stream s)"
    by simp_all
  from inv have ae: "at_end (File s)" by (simp add: store_inv_def)
  from Flush_at_end(5)[OF fl ae] lk have lk1: "linked f1" by (simp add: same_handle_def)
  from F(1) have cap: "length (content f1) \<le> capacity f1" "capacity f1 \<le> max_file_size"
    by (simp_all add: store_inv_def)
  show len: "length (content (File s')) = unat (fileSize s)"
    by (simp add: s' c1 fs)
  from op lk1 have f2: "f2 = f1\<lparr>content := content f1, offset := 0, append_mode := True,
      closed := False, linked := True\<rparr>" and sz: "sz = length (content f1)"
    by (auto simp: openFile_def s' Let_def)
  show "sz = unat (fileSize s)" by (simp add: sz c1 fs)
  from f2 have props: "content f2 = stream s" "\<not> closed f2" "at_end f2"
    "length (content f2) \<le> capacity f2" "capacity f2 \<le> max_file_size"
    using c1 cap by (simp_all add: at_end_def)
  note N = store_inv_newStore[OF new props(3,4,5)]
  show "store_inv s2" by (rule N(1))
  have "fileSize s2 = of_nat (unat (fileSize s))"
    using new props(1) fs by (auto simp: newStore_def split: if_splits)
  then show "fileSize s2 = fileSize s" by simp
  show "Read s2 p = ((d, None), s2)" if rec: "record_at (stream s) (unat p) d"
  proof -
    have fl2: "Flush (buffer s2) (File s2) = (None, buffer s2, f2)"
      by (simp add: N(4,5) Flush_def NewWriter_def Buffered_def)
    from rec props(1) have rec2: "record_at (content f2) (unat p) d" by simp
    from props(4,5) have small: "length (content f2) < 2 ^ 63" by (simp add: max_file_size_def)
    from Read_record[OF fl2 props(2) rec2 small] N(4) show ?thesis by simp
  qed
qed

lemma Write_empty:
  assumes "err b = None"
  shows "Write b f [] = ((0, None), b, f)"
  using assms by (simp add: Write_def Write_loop.simps[of b f "[]" 0])

lemma PutUint64_0: "PutUint64 0 = replicate 8 0"
  by (simp add: PutUint64_def eval_nat_numeral)

lemma Append_empty_error:
  "snd (snd (fst (Append s []))) = fst (binary_Write (buffer s) (File s) 0)"
proof -
  obtain k1 e1 b1 f1 where w1: "Write (buffer s) (File s) (PutUint64 0) = ((k1, e1), b1, f1)"
    by (metis prod.exhaust)
  show ?thesis
  proof (cases e1)
    case (Some x)
    with w1 show ?thesis by (simp add: Append_def binary_Write_def)
  next
    case None
    have "e1 = err b1" using w1
      by (auto simp: Write_def split: prod.splits if_splits)
    with None have "err b1 = None" by simp
    from Write_empty[OF this] w1 None show ?thesis
      by (simp add: Append_def binary_Write_def Let_def)
  qed
qed

section \<open>The length header is big-endian\<close>

lemma unat_shift: "unat (drop_bit k (v :: 64 word)) = unat v div 2 ^ k"
  unfolding unat_drop_bit_eq by (simp add: drop_bit_eq_div)

lemma byte_of0: "unat (ucast (v :: 64 word) :: 8 word) = unat v mod 256"
  by (simp add: unsigned_ucast_eq take_bit_eq_mod)

lemma horner_step: "(x div (256 * m)) * 256 + (x div m) mod 256 = (x div m :: nat)"
proof -
  have "x div (256 * m) = (x div m) div 256"
    by (simp add: div_mult2_eq mult.commute)
  then show ?thesis by simp
qed

lemma be_value_bytes:
  fixes x :: nat
  assumes "x < 2 ^ 64"
  shows "(((((((x div 2 ^ 56 mod 256) * 256 + x div 2 ^ 48 mod 256) * 256 + x div 2 ^ 40 mod 256) * 256
     + x div 2 ^ 32 mod 256) * 256 + x div 2 ^ 24 mod 256) * 256 + x div 2 ^ 16 mod 256) * 256
     + x div 2 ^ 8 mod 256) * 256 + x mod 256 = x"
proof -
  have top: "x div 2 ^ 56 < 256" using assms by (simp add: less_mult_imp_div_less)
  then have s7: "x div 2 ^ 56 mod 256 = x div 2 ^ 56" by simp
  have s6: "(x div 2 ^ 56) * 256 + x div 2 ^ 48 mod 256 = x div 2 ^ 48"
    using horner_step[of x "2 ^ 48"] by simp
  have s5: "(x div 2 ^ 48) * 256 + x div 2 ^ 40 mod 256 = x div 2 ^ 40"
    using horner_step[of x "2 ^ 40"] by simp
  have s4: "(x div 2 ^ 40) * 256 + x div 2 ^ 32 mod 256 = x div 2 ^ 32"
    using horner_step[of x "2 ^ 32"] by simp
  have s3: "(x div 2 ^ 32) * 256 + x div 2 ^ 24 mod 256 = x div 2 ^ 24"
    using horner_step[of x "2 ^ 24"] by simp
  have s2: "(x div 2 ^ 24) * 256 + x div 2 ^ 16 mod 256 = x div 2 ^ 16"
    using horner_step[of x "2 ^ 16"] by simp
  have s1: "(x div 2 ^ 16) * 256 + x div 2 ^ 8 mod 256 = x div 2 ^ 8"
    using horner_step[of x "2 ^ 8"] by simp
  have s0: "(x div 2 ^ 8) * 256 + x mod 256 = x"
    using horner_step[of x 1] by simp
  show ?thesis
    by (simp only: s7 s6 s5 s4 s3 s2 s1 s0)
qed

lemma be_value_PutUint64: "be_value (PutUint64 v) = unat v"
proof -
  have "unat v < 2 ^ 64" using unsigned_less[of v] by simp
  from be_value_bytes[OF this] show ?thesis
    by (simp only: PutUint64_def be_value_def foldl.simps byte_of0 unat_shift mult_0 add_0)
qed

lemma length_encode_record [simp]: "length (encode_record d) = 8 + length d"
  by (simp add: encode_record_def)

lemma member_length_concat:
  "d \<in> set ds \<Longrightarrow> length (encode_record d) \<le> length (concat (map encode_record ds))"
  by (induction ds) auto


lemma append_all_err:
  "at_end (File s) \<Longrightarrow> err (buffer s) = None \<Longrightarrow> append_all s ds = ((rs, None), s') \<Longrightarrow>
   err (buffer s') = None"
proof (induction ds arbitrary: s rs)
  case Nil
  then show ?case by simp
next
  case (Cons d ds)
  obtain n p e s1 where app: "Append s d = ((n, p, e), s1)"
    by (metis prod.exhaust)
  obtain rs1 e1 s2 where rest: "append_all s1 ds = ((rs1, e1), s2)"
    by (metis prod.exhaust)
  from Cons.prems(3) app rest have e: "e = None" and e1: "e1 = None" and s2: "s2 = s'"
    by (auto split: if_splits)
  note A = Append_at_end[OF app[unfolded e] Cons.prems(1)]
  from A(4) have "err (buffer s1) = None" by simp
  from Cons.IH[OF A(1) this rest[unfolded e1 s2]] show ?case .
qed

section \<open>Runs on concrete stores\<close>

lemma store_inv_fresh:
  "cap \<le> max_file_size \<Longrightarrow> store_inv \<lparr>File = CreateTemp cap, buffer = NewWriter, fileSize = 0\<rparr>"
  by (simp add: store_inv_def at_end_def CreateTemp_def NewWriter_def stream_def)

lemma small_cap [simp]: "0 \<le> max_file_size" "100 \<le> max_file_size"
  by (simp_all add: max_file_size_def)

lemma fresh_append_123:
  "Append \<lparr>File = CreateTemp cap, buffer = NewWriter, fileSize = 0\<rparr> [1, 2, 3] =
     ((11, 0, None),
      \<lparr>File = CreateTemp cap, buffer = NewWriter\<lparr>buf := encode_record [1, 2, 3]\<rparr>, fileSize = 11\<rparr>)"
  by (simp add: Append_fits NewWriter_def defaultBufSize_def)

text \<open>
  Two runs on a device that is full. On a new, empty file an append of 5000 bytes
  buffers the header, fills the buffer with the first 4088 payload bytes and fails in the
  flush. On a file of three bytes the same append fails the same way.
\<close>

lemma full_disk_append:
  "fst (Append \<lparr>File = CreateTemp 0, buffer = NewWriter, fileSize = 0\<rparr> (replicate 5000 7))
     = (0, 0, Some ErrNoSpace)"
  "buf (buffer (snd (Append \<lparr>File = CreateTemp 0, buffer = NewWriter, fileSize = 0\<rparr>
      (replicate 5000 7)))) = PutUint64 5000 @ replicate 4088 7"
  by (simp_all add: Append_def binary_Write_def Write_def Write_loop.simps Flush_def
      file_Write_def NewWriter_def defaultBufSize_def CreateTemp_def Available_def Buffered_def
      Let_def)

lemma full_disk_append_error:
  "snd (snd (fst (Append
      \<lparr>File = (CreateTemp 3)\<lparr>content := [1, 2, 3], offset := 3\<rparr>, buffer = NewWriter,
       fileSize = 3\<rparr> (replicate 5000 7)))) = Some ErrNoSpace"
  by (simp add: Append_def binary_Write_def Write_def Write_loop.simps Flush_def
      file_Write_def NewWriter_def defaultBufSize_def CreateTemp_def Available_def Buffered_def
      Let_def)

lemma nearly_full_append:
  "Append \<lparr>File = CreateTemp 0, buffer = NewWriter, fileSize = 0\<rparr> (replicate 4082 0) =
     ((4090, 0, None),
      \<lparr>File = CreateTemp 0, buffer = NewWriter\<lparr>buf := encode_record (replicate 4082 0)\<rparr>,
       fileSize = 4090\<rparr>)"
  by (simp add: Append_fits NewWriter_def defaultBufSize_def)

lemma fresh_append_empty:
  "Append \<lparr>File = CreateTemp cap, buffer = NewWriter, fileSize = 0\<rparr> [] =
     ((8, 0, None),
      \<lparr>File = CreateTemp cap, buffer = NewWriter\<lparr>buf := encode_record []\<rparr>, fileSize = 8\<rparr>)"
  by (simp add: Append_fits NewWriter_def defaultBufSize_def)

lemma encode_record_123: "encode_record [1, 2, 3] = [0, 0, 0, 0, 0, 0, 0, 3, 1, 2, 3]"
  by (simp add: encode_record_def PutUint64_def)

lemma store_inv_one_record:
  "store_inv \<lparr>File = CreateTemp 100, buffer = NewWriter\<lparr>buf := encode_record [1, 2, 3]\<rparr>,
               fileSize = 11\<rparr>"
  using store_inv_Append[OF store_inv_fresh[OF small_cap(2)] fresh_append_123[of 100]] .

lemma flush_one_record:
  "Flush (NewWriter\<lparr>buf := encode_record [1, 2, 3]\<rparr>) (CreateTemp 100) =
     (None, NewWriter, (CreateTemp 100)\<lparr>content := encode_record [1, 2, 3], offset := 11\<rparr>)"
  by (simp add: Flush_def file_Write_def Buffered_def NewWriter_def CreateTemp_def Let_def
      write_bytes_def)

lemma close_one_record:
  "Close \<lparr>File = CreateTemp 100, buffer = NewWriter\<lparr>buf := encode_record [1, 2, 3]\<rparr>,
           fileSize = 11\<rparr> =
     (None, \<lparr>File = (CreateTemp 100)\<lparr>content := encode_record [1, 2, 3], offset := 11,
                     closed := True\<rparr>,
             buffer = NewWriter, fileSize = 11\<rparr>)"
  by (simp add: Close_def flush_one_record) (simp add: file_Close_def CreateTemp_def)

lemma reopen_one_record:
  "openFile ((CreateTemp 100)\<lparr>content := encode_record [1, 2, 3], offset := 11, closed := True\<rparr>) =
     ((CreateTemp 100)\<lparr>content := encode_record [1, 2, 3], append_mode := True\<rparr>, 11)"
  by (simp add: openFile_def CreateTemp_def Let_def)

section \<open>The claims of the specification\<close>




text \<open>
  Claim C2 (position arithmetic), with the numbers of the example as the code gives them.
  On a store that satisfies the invariant, a successful \<open>Append d\<close> returns
  \<open>8 + length d\<close> and the cursor before the call, and advances the cursor by that count;
  the next successful append starts where this one ended, at a strictly larger position.
  For a run of successful appends the \<open>i\<close>-th position is the first cursor plus the sum
  of the earlier counts, records do not overlap, and with equal payloads of length \<open>L\<close>
  from cursor 0 the \<open>i\<close>-th position (counting from 1) is \<open>(i - 1) * (8 + L)\<close>. The
  payload \<open>hello world log\<close> has 15 bytes (the test's \<open>testDataLength\<close> is 23):
  appended three times to a new store it gives the positions 0, 23, 46 and the final
  cursor 69.
\<close>

theorem Append_positions:
  assumes "store_inv s"
  shows "(Append s d = ((n, p, None), s1) \<longrightarrow>
            unat n = 8 + length d \<and> p = fileSize s \<and>
            unat (fileSize s1) = unat (fileSize s) + unat n \<and>
            (Append s1 d2 = ((n2, p2, None), s2) \<longrightarrow>
               unat p2 = unat p + unat n \<and> unat p < unat p2)) \<and>
         (append_all s ds = ((rs, None), s') \<longrightarrow>
            length rs = length ds \<and>
            (\<forall>i<length ds. unat (fst (rs ! i)) = 8 + length (ds ! i) \<and>
               unat (snd (rs ! i)) =
                 unat (fileSize s) + sum_list (map (\<lambda>d. 8 + length d) (take i ds))) \<and>
            (\<forall>i j. i < j \<and> j < length ds \<longrightarrow>
               unat (snd (rs ! i)) + unat (fst (rs ! i)) \<le> unat (snd (rs ! j))) \<and>
            unat (fileSize s') = unat (fileSize s) + sum_list (map (\<lambda>d. 8 + length d) ds)) \<and>
         (fileSize s = 0 \<and> append_all s (replicate k d) = ((rs, None), s') \<longrightarrow>
            (\<forall>i. 1 \<le> i \<and> i \<le> k \<longrightarrow> unat (snd (rs ! (i - 1))) = (i - 1) * (8 + length d)) \<and>
            unat (fileSize s') = k * (8 + length d)) \<and>
         length testData = 15 \<and> testDataLength = 23 \<and>
         fst (append_all \<lparr>File = CreateTemp cap, buffer = NewWriter, fileSize = 0\<rparr>
               (replicate 3 testData)) = ([(23, 0), (23, 23), (23, 46)], None) \<and>
         fileSize (snd (append_all \<lparr>File = CreateTemp cap, buffer = NewWriter, fileSize = 0\<rparr>
               (replicate 3 testData))) = 69"
proof -
  have one: "unat n = 8 + length d \<and> p = fileSize s \<and>
            unat (fileSize s1) = unat (fileSize s) + unat n \<and>
            (Append s1 d2 = ((n2, p2, None), s2) \<longrightarrow>
               unat p2 = unat p + unat n \<and> unat p < unat p2)"
    if app: "Append s d = ((n, p, None), s1)"
  proof -
    note C = Append_cursor[OF assms app]
    from Append_result(2)[OF app] have p: "p = fileSize s" by simp
    have "unat p2 = unat p + unat n \<and> unat p < unat p2"
      if app2: "Append s1 d2 = ((n2, p2, None), s2)"
    proof -
      from Append_result(2)[OF app2] have "p2 = fileSize s1" by simp
      with C(3,5) p show ?thesis by simp
    qed
    with C(3,5) p show ?thesis by simp
  qed
  have many: "length rs = length ds \<and>
            (\<forall>i<length ds. unat (fst (rs ! i)) = 8 + length (ds ! i) \<and>
               unat (snd (rs ! i)) =
                 unat (fileSize s) + sum_list (map (\<lambda>d. 8 + length d) (take i ds))) \<and>
            (\<forall>i j. i < j \<and> j < length ds \<longrightarrow>
               unat (snd (rs ! i)) + unat (fst (rs ! i)) \<le> unat (snd (rs ! j))) \<and>
            unat (fileSize s') = unat (fileSize s) + sum_list (map (\<lambda>d. 8 + length d) ds)"
    if run: "append_all s ds = ((rs, None), s')" for ds rs s'
  proof -
    note P = append_all_positions[OF assms run]
    have "unat (snd (rs ! i)) + unat (fst (rs ! i)) \<le> unat (snd (rs ! j))"
      if "i < j" "j < length ds" for i j
    proof -
      from that have i: "i < length ds" by simp
      from P i have "unat (snd (rs ! i)) + unat (fst (rs ! i)) =
        unat (fileSize s) + (sum_list (map (\<lambda>d. 8 + length d) (take i ds)) + (8 + length (ds ! i)))"
        by simp
      also have "\<dots> \<le> unat (fileSize s) + sum_list (map (\<lambda>d. 8 + length d) (take j ds))"
        using sum_take_mono[of i j ds "\<lambda>d. 8 + length d"] that by simp
      also have "\<dots> = unat (snd (rs ! j))" using P that(2) by simp
      finally show ?thesis .
    qed
    with P show ?thesis by blast
  qed
  have uniform: "(\<forall>i. 1 \<le> i \<and> i \<le> k \<longrightarrow> unat (snd (rs ! (i - 1))) = (i - 1) * (8 + length d)) \<and>
            unat (fileSize s') = k * (8 + length d)"
    if zero: "fileSize s = 0" and run: "append_all s (replicate k d) = ((rs, None), s')"
  proof -
    note P = append_all_positions[OF assms run]
    have "unat (snd (rs ! (i - 1))) = (i - 1) * (8 + length d)" if "1 \<le> i" "i \<le> k" for i
    proof -
      from that have "i - 1 < length (replicate k d)" by simp
      with P have "unat (snd (rs ! (i - 1))) = unat (fileSize s) +
          sum_list (map (\<lambda>d. 8 + length d) (take (i - 1) (replicate k d)))" by blast
      also have "\<dots> = (i - 1) * (8 + length d)"
        using that zero sum_take_replicate[of "i - 1" k "\<lambda>d. 8 + length d" d] by simp
      finally show ?thesis .
    qed
    moreover have "unat (fileSize s') = k * (8 + length d)"
      using P zero by (simp add: sum_list_replicate)
    ultimately show ?thesis by blast
  qed
  have three: "replicate 3 testData = [testData, testData, testData]"
    by (simp add: numeral_3_eq_3)
  have ex: "length testData = 15 \<and> testDataLength = 23 \<and>
         fst (append_all \<lparr>File = CreateTemp cap, buffer = NewWriter, fileSize = 0\<rparr>
               (replicate 3 testData)) = ([(23, 0), (23, 23), (23, 46)], None) \<and>
         fileSize (snd (append_all \<lparr>File = CreateTemp cap, buffer = NewWriter, fileSize = 0\<rparr>
               (replicate 3 testData))) = 69"
    by (simp only: three testData_length testDataLength_eq example_run)
  have c1: "Append s d = ((n, p, None), s1) \<longrightarrow>
            unat n = 8 + length d \<and> p = fileSize s \<and>
            unat (fileSize s1) = unat (fileSize s) + unat n \<and>
            (Append s1 d2 = ((n2, p2, None), s2) \<longrightarrow>
               unat p2 = unat p + unat n \<and> unat p < unat p2)"
    by (rule impI) (rule one)
  have c2: "append_all s ds = ((rs, None), s') \<longrightarrow>
            length rs = length ds \<and>
            (\<forall>i<length ds. unat (fst (rs ! i)) = 8 + length (ds ! i) \<and>
               unat (snd (rs ! i)) =
                 unat (fileSize s) + sum_list (map (\<lambda>d. 8 + length d) (take i ds))) \<and>
            (\<forall>i j. i < j \<and> j < length ds \<longrightarrow>
               unat (snd (rs ! i)) + unat (fst (rs ! i)) \<le> unat (snd (rs ! j))) \<and>
            unat (fileSize s') = unat (fileSize s) + sum_list (map (\<lambda>d. 8 + length d) ds)"
    by (rule impI) (rule many)
  have c3: "fileSize s = 0 \<and> append_all s (replicate k d) = ((rs, None), s') \<longrightarrow>
            (\<forall>i. 1 \<le> i \<and> i \<le> k \<longrightarrow> unat (snd (rs ! (i - 1))) = (i - 1) * (8 + length d)) \<and>
            unat (fileSize s') = k * (8 + length d)"
    using uniform by (intro impI) (elim conjE)
  show ?thesis
    by (rule conjI[OF c1 conjI[OF c2 conjI[OF c3 ex]]])
qed

text \<open>
  The example as the specification states it fails: the payload does not have 16 bytes,
  the positions are not 0, 24, 48 and the final cursor is not 72.
\<close>

theorem Append_positions_counterexample:
  "length testData \<noteq> 16 \<and>
   map snd (fst (fst (append_all \<lparr>File = CreateTemp 100, buffer = NewWriter, fileSize = 0\<rparr>
      (replicate 3 testData)))) \<noteq> [0, 24, 48] \<and>
   fileSize (snd (append_all \<lparr>File = CreateTemp 100, buffer = NewWriter, fileSize = 0\<rparr>
      (replicate 3 testData))) \<noteq> 72"
proof -
  have "replicate 3 testData = [testData, testData, testData]"
    by (simp add: numeral_3_eq_3)
  then have run:
    "fst (append_all \<lparr>File = CreateTemp 100, buffer = NewWriter, fileSize = 0\<rparr>
       (replicate 3 testData)) = ([(23, 0), (23, 23), (23, 46)], None)"
    "fileSize (snd (append_all \<lparr>File = CreateTemp 100, buffer = NewWriter, fileSize = 0\<rparr>
       (replicate 3 testData))) = 69"
    by (simp_all only: example_run)
  show ?thesis
    unfolding run testData_length by simp
qed

text \<open>One append of three bytes to a new store.\<close>

theorem Append_positions_witness:
  "store_inv \<lparr>File = CreateTemp 100, buffer = NewWriter, fileSize = 0\<rparr> \<and>
   fst (Append \<lparr>File = CreateTemp 100, buffer = NewWriter, fileSize = 0\<rparr> [1, 2, 3])
     = (11, 0, None) \<and>
   unat (11 :: uint64) = 8 + length [1, 2, 3 :: byte] \<and>
   unat (fileSize (snd (Append \<lparr>File = CreateTemp 100, buffer = NewWriter, fileSize = 0\<rparr>
      [1, 2, 3]))) = unat (0 :: uint64) + unat (11 :: uint64)"
proof -
  let ?s = "\<lparr>File = CreateTemp 100, buffer = NewWriter, fileSize = 0\<rparr>"
  let ?s1 = "\<lparr>File = CreateTemp 100, buffer = NewWriter\<lparr>buf := encode_record [1, 2, 3]\<rparr>,
             fileSize = 11\<rparr>"
  have inv: "store_inv ?s" by (simp add: store_inv_fresh)
  have app: "Append ?s [1, 2, 3] = ((11, 0, None), ?s1)" by (rule fresh_append_123)
  from Append_positions[OF inv, of "[1, 2, 3]" 11 0 ?s1] app
  have "unat (11 :: uint64) = 8 + length [1, 2, 3 :: byte] \<and>
        unat (fileSize ?s1) = unat (fileSize ?s) + unat (11 :: uint64)" by blast
  with inv app show ?thesis by simp
qed

text \<open>
  Claim C3. Whenever \<open>Append\<close> returns an error, from the header write or from the
  payload write, the size cursor of the store is what it was before the call.
\<close>

theorem Append_error_keeps_fileSize:
  "Append s data = ((n, pos, Some e), s') \<Longrightarrow> fileSize s' = fileSize s"
  using Append_result(1)[of s data n pos "Some e" s'] by simp

text \<open>
  The run on the new file: the append fails in the payload write, the header and 4088
  payload bytes are left in the buffer, and the cursor is still 0.
\<close>

theorem Append_error_keeps_fileSize_witness:
  "newStore (CreateTemp 0) = Inr \<lparr>File = CreateTemp 0, buffer = NewWriter, fileSize = 0\<rparr> \<and>
   fst (Append \<lparr>File = CreateTemp 0, buffer = NewWriter, fileSize = 0\<rparr> (replicate 5000 7))
     = (0, 0, Some ErrNoSpace) \<and>
   buf (buffer (snd (Append \<lparr>File = CreateTemp 0, buffer = NewWriter, fileSize = 0\<rparr>
      (replicate 5000 7)))) = PutUint64 5000 @ replicate 4088 7 \<and>
   fileSize (snd (Append \<lparr>File = CreateTemp 0, buffer = NewWriter, fileSize = 0\<rparr>
      (replicate 5000 7))) = fileSize \<lparr>File = CreateTemp 0, buffer = NewWriter, fileSize = 0\<rparr>"
proof -
  let ?s = "\<lparr>File = CreateTemp 0, buffer = NewWriter, fileSize = 0\<rparr>"
  let ?d = "replicate 5000 (7 :: byte)"
  have new: "newStore (CreateTemp 0) = Inr ?s"
    by (simp add: newStore_def CreateTemp_def)
  have run: "Append ?s ?d = ((0, 0, Some ErrNoSpace), snd (Append ?s ?d))"
    using full_disk_append(1) by (metis prod.collapse)
  from Append_error_keeps_fileSize[OF run] new full_disk_append show ?thesis
    by simp
qed

text \<open>
  Claim C4 (wire encoding). A successful \<open>Append d\<close> extends the logical byte sequence
  by the 8 bytes of \<open>length d\<close> in big-endian order followed by \<open>d\<close>. After any run of
  successful appends to a store built over a new, empty file, the logical byte sequence
  is the concatenation of these encodings from byte 0 and nothing else, and so is the
  content of the file once the buffer is flushed. The flush succeeds, and leaves exactly
  these bytes in the file and none in the buffer, whenever the handle is open and the
  device takes that many bytes.
\<close>

theorem wire_format:
  assumes "newStore f = Inr s0" and "content f = []" and "at_end f"
    and "capacity f \<le> max_file_size" and "append_all s0 ds = ((rs, None), s1)"
  shows "stream s1 = concat (map encode_record ds) \<and>
         (\<forall>b2 f2. Flush (buffer s1) (File s1) = (None, b2, f2) \<longrightarrow>
            content f2 = concat (map encode_record ds)) \<and>
         (\<forall>d\<in>set ds. encode_record d = PutUint64 (of_nat (length d)) @ d \<and>
            length (PutUint64 (of_nat (length d))) = 8 \<and>
            be_value (PutUint64 (of_nat (length d))) = length d) \<and>
         (\<forall>s d n p s'. store_inv s \<and> Append s d = ((n, p, None), s') \<longrightarrow>
            stream s' = stream s @ encode_record d) \<and>
         (\<not> closed (File s1) \<and> length (concat (map encode_record ds)) \<le> capacity (File s1) \<longrightarrow>
            fst (Flush (buffer s1) (File s1)) = None \<and>
            buf (fst (snd (Flush (buffer s1) (File s1)))) = [] \<and>
            content (snd (snd (Flush (buffer s1) (File s1)))) = concat (map encode_record ds))"
proof -
  from assms(2) have "length (content f) \<le> capacity f" by simp
  note N = store_inv_newStore[OF assms(1,3) this assms(4)]
  note P = append_all_positions[OF N(1) assms(5)]
  from P N(2) assms(2) have st: "stream s1 = concat (map encode_record ds)" by simp
  from P have inv1: "store_inv s1" by simp
  have fl: "content f2 = concat (map encode_record ds)"
    if "Flush (buffer s1) (File s1) = (None, b2, f2)" for b2 f2
    using Flush_store(3)[OF inv1 that] st by simp
  have enc: "encode_record d = PutUint64 (of_nat (length d)) @ d \<and>
            length (PutUint64 (of_nat (length d))) = 8 \<and>
            be_value (PutUint64 (of_nat (length d))) = length d" if "d \<in> set ds" for d
  proof -
    from member_length_concat[OF that] have "length d \<le> length (stream s1)"
      by (simp add: st)
    also have "\<dots> < 2 ^ 64" using inv1 by (rule store_inv_stream_bound)
    finally have "unat (of_nat (length d) :: uint64) = length d" by (rule unat_of_nat_64)
    then show ?thesis by (simp add: encode_record_def be_value_PutUint64)
  qed
  have one: "stream s' = stream s @ encode_record d"
    if "store_inv s \<and> Append s d = ((n, p, None), s')" for s d n p s'
    using that Append_cursor(2) by blast
  have flushed: "fst (Flush (buffer s1) (File s1)) = None \<and>
            buf (fst (snd (Flush (buffer s1) (File s1)))) = [] \<and>
            content (snd (snd (Flush (buffer s1) (File s1)))) = concat (map encode_record ds)"
    if ok: "\<not> closed (File s1) \<and> length (concat (map encode_record ds)) \<le> capacity (File s1)"
  proof -
    from N(1) have ae0: "at_end (File s0)" by (simp add: store_inv_def)
    from N(5) have "err (buffer s0) = None" by (simp add: NewWriter_def)
    from append_all_err[OF ae0 this assms(5)] have err1: "err (buffer s1) = None" .
    from inv1 have ae1: "at_end (File s1)" by (simp add: store_inv_def)
    from ok st have room: "length (content (File s1)) + length (buf (buffer s1)) \<le> capacity (File s1)"
      by (simp add: stream_def flip: length_append)
    from ok have op: "\<not> closed (File s1)" by simp
    from Flush_open_ok[OF ae1 err1 op room] have none: "fst (Flush (buffer s1) (File s1)) = None" .
    then have eq: "Flush (buffer s1) (File s1) =
        (None, fst (snd (Flush (buffer s1) (File s1))), snd (snd (Flush (buffer s1) (File s1))))"
      by (metis prod.collapse)
    from Flush_store(3)[OF inv1 eq] st none show ?thesis by simp
  qed
  from st fl enc one flushed show ?thesis by blast
qed

text \<open>
  One record on a new file: the stream is its eight header bytes and its payload, and
  the flush moves exactly these bytes into the file.
\<close>

theorem wire_format_witness:
  "newStore (CreateTemp 100) = Inr \<lparr>File = CreateTemp 100, buffer = NewWriter, fileSize = 0\<rparr> \<and>
   content (CreateTemp 100) = [] \<and> at_end (CreateTemp 100) \<and>
   capacity (CreateTemp 100) \<le> max_file_size \<and>
   append_all \<lparr>File = CreateTemp 100, buffer = NewWriter, fileSize = 0\<rparr> [[1, 2, 3]] =
     (([(11, 0)], None),
      \<lparr>File = CreateTemp 100, buffer = NewWriter\<lparr>buf := encode_record [1, 2, 3]\<rparr>,
       fileSize = 11\<rparr>) \<and>
   stream \<lparr>File = CreateTemp 100, buffer = NewWriter\<lparr>buf := encode_record [1, 2, 3]\<rparr>,
           fileSize = 11\<rparr> = [0, 0, 0, 0, 0, 0, 0, 3, 1, 2, 3] \<and>
   fst (Flush (NewWriter\<lparr>buf := encode_record [1, 2, 3]\<rparr>) (CreateTemp 100)) = None \<and>
   buf (fst (snd (Flush (NewWriter\<lparr>buf := encode_record [1, 2, 3]\<rparr>) (CreateTemp 100)))) = [] \<and>
   content (snd (snd (Flush (NewWriter\<lparr>buf := encode_record [1, 2, 3]\<rparr>) (CreateTemp 100))))
     = [0, 0, 0, 0, 0, 0, 0, 3, 1, 2, 3]"
proof -
  let ?f = "CreateTemp 100"
  let ?init = "\<lparr>File = ?f, buffer = NewWriter, fileSize = 0\<rparr>"
  let ?one = "\<lparr>File = ?f, buffer = NewWriter\<lparr>buf := encode_record [1, 2, 3]\<rparr>, fileSize = 11\<rparr>"
  have new: "newStore ?f = Inr ?init" by (simp add: newStore_def CreateTemp_def)
  have c: "content ?f = []" and a: "at_end ?f" and cap: "capacity ?f \<le> max_file_size"
    by (simp_all add: CreateTemp_def at_end_def)
  have run: "append_all ?init [[1, 2, 3]] = (([(11, 0)], None), ?one)"
    by (simp add: fresh_append_123)
  have bytes: "concat (map encode_record [[1, 2, 3]]) = [0, 0, 0, 0, 0, 0, 0, 3, 1, 2, 3]"
    by (simp add: encode_record_123)
  have ok: "\<not> closed (File ?one) \<and>
      length (concat (map encode_record [[1, 2, 3]])) \<le> capacity (File ?one)"
    by (simp add: bytes) (simp add: CreateTemp_def)
  note T = wire_format[OF new c a cap run]
  from T[THEN conjunct1] have st: "stream ?one = [0, 0, 0, 0, 0, 0, 0, 3, 1, 2, 3]"
    by (simp only: bytes)
  from T[THEN conjunct2, THEN conjunct2, THEN conjunct2, THEN conjunct2, rule_format, OF ok]
  have "fst (Flush (buffer ?one) (File ?one)) = None \<and>
        buf (fst (snd (Flush (buffer ?one) (File ?one)))) = [] \<and>
        content (snd (snd (Flush (buffer ?one) (File ?one)))) = [0, 0, 0, 0, 0, 0, 0, 3, 1, 2, 3]"
    by (simp only: bytes)
  then have fl: "fst (Flush (NewWriter\<lparr>buf := encode_record [1, 2, 3]\<rparr>) ?f) = None \<and>
        buf (fst (snd (Flush (NewWriter\<lparr>buf := encode_record [1, 2, 3]\<rparr>) ?f))) = [] \<and>
        content (snd (snd (Flush (NewWriter\<lparr>buf := encode_record [1, 2, 3]\<rparr>) ?f)))
          = [0, 0, 0, 0, 0, 0, 0, 3, 1, 2, 3]"
    by simp
  from new c a cap run st fl show ?thesis by (intro conjI) (elim conjE, assumption)+
qed

text \<open>
  Claim C5 (close, then open again). Let a run of appends on a store that satisfies the
  invariant succeed, and let \<open>Close\<close> return no error. Then the file on disk is at least
  as long as the size cursor was before the call. A store built by \<open>newStore\<close> over a
  fresh handle on the same file (opened as \<open>openFile\<close> does, the name still existing)
  starts with the old cursor, and \<open>Read\<close> returns every record of the run, and every
  record the old store held, at its old position.
\<close>

theorem Close_then_reopen:
  assumes "store_inv s0" and "append_all s0 ds = ((rs, None), s)"
    and "Close s = (None, s')" and "linked (File s)"
    and "openFile (File s') = (f2, sz)" and "newStore f2 = Inr s2"
  shows "unat (fileSize s) \<le> length (content (File s')) \<and>
         fileSize s2 = fileSize s \<and>
         (\<forall>i<length ds. Read s2 (snd (rs ! i)) = ((ds ! i, None), s2)) \<and>
         (\<forall>p d. record_at (stream s) (unat p) d \<longrightarrow> Read s2 p = ((d, None), s2))"
proof -
  note P = append_all_positions[OF assms(1,2)]
  from P have inv: "store_inv s" by simp
  note R = reopen_read[OF inv assms(3-6)]
  note A = append_all_records[OF assms(1,2)]
  from R(1) have "unat (fileSize s) \<le> length (content (File s'))" by simp
  moreover have "\<forall>i<length ds. Read s2 (snd (rs ! i)) = ((ds ! i, None), s2)"
    using A R(4) by blast
  moreover have "\<forall>p d. record_at (stream s) (unat p) d \<longrightarrow> Read s2 p = ((d, None), s2)"
    using R(4) by blast
  ultimately show ?thesis using R(2) by blast
qed

text \<open>One record, closed and opened again.\<close>

theorem Close_then_reopen_witness:
  "store_inv \<lparr>File = CreateTemp 100, buffer = NewWriter, fileSize = 0\<rparr> \<and>
   fst (append_all \<lparr>File = CreateTemp 100, buffer = NewWriter, fileSize = 0\<rparr> [[1, 2, 3]])
     = ([(11, 0)], None) \<and>
   fst (Close (snd (append_all \<lparr>File = CreateTemp 100, buffer = NewWriter, fileSize = 0\<rparr>
      [[1, 2, 3]]))) = None \<and>
   newStore ((CreateTemp 100)\<lparr>content := encode_record [1, 2, 3], append_mode := True\<rparr>) =
     Inr \<lparr>File = (CreateTemp 100)\<lparr>content := encode_record [1, 2, 3], append_mode := True\<rparr>,
          buffer = NewWriter, fileSize = 11\<rparr> \<and>
   fst (Read \<lparr>File = (CreateTemp 100)\<lparr>content := encode_record [1, 2, 3], append_mode := True\<rparr>,
          buffer = NewWriter, fileSize = 11\<rparr> 0) = ([1, 2, 3], None)"
proof -
  let ?init = "\<lparr>File = CreateTemp 100, buffer = NewWriter, fileSize = 0\<rparr>"
  let ?s = "\<lparr>File = CreateTemp 100, buffer = NewWriter\<lparr>buf := encode_record [1, 2, 3]\<rparr>,
            fileSize = 11\<rparr>"
  let ?shut = "\<lparr>File = (CreateTemp 100)\<lparr>content := encode_record [1, 2, 3], offset := 11,
                     closed := True\<rparr>, buffer = NewWriter, fileSize = 11\<rparr>"
  let ?handle = "(CreateTemp 100)\<lparr>content := encode_record [1, 2, 3], append_mode := True\<rparr>"
  let ?again = "\<lparr>File = ?handle, buffer = NewWriter, fileSize = 11\<rparr>"
  have inv: "store_inv ?init" by (simp add: store_inv_fresh)
  have run: "append_all ?init [[1, 2, 3]] = (([(11, 0)], None), ?s)"
    by (simp add: fresh_append_123)
  have cl: "Close ?s = (None, ?shut)" by (rule close_one_record)
  have lk: "linked (File ?s)" by (simp add: CreateTemp_def)
  have op: "openFile (File ?shut) = (?handle, 11)" by (simp add: reopen_one_record)
  have new: "newStore ?handle = Inr ?again" by (simp add: newStore_def CreateTemp_def)
  from Close_then_reopen[OF inv run cl lk op new]
  have "\<forall>i<length [[1, 2, 3 :: byte]]. Read ?again (snd ([(11 :: uint64, 0 :: uint64)] ! i))
          = (([[1, 2, 3]] ! i, None), ?again)" by blast
  then have "Read ?again 0 = (([1, 2, 3], None), ?again)" by simp
  with inv run cl new show ?thesis by simp
qed

text \<open>
  Claim C6 (\<open>Read\<close> and \<open>ReadAt\<close>). For every store and position, \<open>Read\<close> returns what
  the composite of two \<open>ReadAt\<close> calls returns (8 bytes at \<open>pos\<close>, decoded as the
  length, then that many bytes at \<open>pos + 8\<close>) and leaves the store in the same state;
  in particular so for every position that holds a record.
\<close>

theorem Read_eq_Read_via_ReadAt: "Read s pos = Read_via_ReadAt s pos"
proof -
  obtain e b1 f1 where fl: "Flush (buffer s) (File s) = (e, b1, f1)"
    by (metis prod.exhaust)
  show ?thesis
  proof (cases e)
    case (Some x)
    with fl show ?thesis
      by (simp add: Read_def Read_via_ReadAt_def ReadAt_def)
  next
    case None
    let ?s1 = "s\<lparr>File := f1, buffer := b1\<rparr>"
    from Flush_idem[OF fl[unfolded None]]
    have again: "Flush (buffer ?s1) (File ?s1) = (None, b1, f1)" by simp
    have ra: "ReadAt ?s1 b off = (file_ReadAt f1 b off, ?s1)" for b off
      using again by (simp add: ReadAt_def)
    have r0: "ReadAt s b off = (file_ReadAt f1 b off, ?s1)" for b off
      using fl None by (simp add: ReadAt_def)
    show ?thesis
      by (simp add: Read_def Read_via_ReadAt_def fl None r0 ra Let_def
               split: prod.splits option.splits)
  qed
qed

text \<open>On a store with one buffered record the composite returns the payload.\<close>

theorem Read_eq_Read_via_ReadAt_witness:
  "fst (Read_via_ReadAt
      \<lparr>File = CreateTemp 100, buffer = NewWriter\<lparr>buf := encode_record [1, 2, 3]\<rparr>, fileSize = 11\<rparr>
      0) = ([1, 2, 3], None)"
proof -
  let ?s = "\<lparr>File = CreateTemp 100, buffer = NewWriter, fileSize = 0\<rparr>"
  let ?s1 = "\<lparr>File = CreateTemp 100, buffer = NewWriter\<lparr>buf := encode_record [1, 2, 3]\<rparr>,
             fileSize = 11\<rparr>"
  let ?R = "Read ?s1 0"
  have rd: "?R = ((fst (fst ?R), snd (fst ?R)), snd ?R)" by simp
  have ok: "\<not> closed (File ?s1) \<and> length (stream ?s1) \<le> capacity (File ?s1)"
    by (simp add: CreateTemp_def stream_def encode_record_def NewWriter_def)
  note T = Read_after_Append[OF store_inv_fresh[OF small_cap(2)] fresh_append_123[of 100] rd]
  from T[THEN conjunct2, THEN conjunct2, rule_format, OF ok]
  have e: "snd (fst ?R) = None" .
  from T[THEN conjunct2, THEN conjunct1, rule_format, OF e]
  have "fst (fst ?R) = [1, 2, 3]" .
  with e have "fst ?R = ([1, 2, 3], None)" by (simp add: prod_eq_iff)
  then show ?thesis by (simp only: Read_eq_Read_via_ReadAt[symmetric])
qed

text \<open>
  Claim C7 (frame). On a store that satisfies the invariant, \<open>Read\<close> and \<open>ReadAt\<close>
  leave the size cursor and the logical byte sequence (file content, then buffered
  bytes) as they were; they only move buffered bytes to the file. \<open>Append\<close>, whether it
  succeeds or fails, only extends the logical byte sequence: every byte below the size
  cursor stays, and every position that held a record still holds it.
\<close>

theorem reads_and_appends_frame:
  assumes "store_inv s"
  shows "(Read s p = (r, s1) \<longrightarrow> fileSize s1 = fileSize s \<and> stream s1 = stream s) \<and>
         (ReadAt s b off = (r', s2) \<longrightarrow> fileSize s2 = fileSize s \<and> stream s2 = stream s) \<and>
         (Append s d = (r'', s3) \<longrightarrow>
            prefix (stream s) (stream s3) \<and>
            (\<forall>i<unat (fileSize s). i < length (stream s3) \<and> stream s3 ! i = stream s ! i) \<and>
            (\<forall>q e. record_at (stream s) q e \<longrightarrow> record_at (stream s3) q e))"
proof -
  have rd: "fileSize s1 = fileSize s \<and> stream s1 = stream s" if "Read s p = (r, s1)"
    using store_inv_Read(2,3)[OF assms that] by simp
  have ra: "fileSize s2 = fileSize s \<and> stream s2 = stream s" if "ReadAt s b off = (r', s2)"
    using store_inv_ReadAt(2,3)[OF assms that] by simp
  have ap: "prefix (stream s) (stream s3) \<and>
            (\<forall>i<unat (fileSize s). i < length (stream s3) \<and> stream s3 ! i = stream s ! i) \<and>
            (\<forall>q e. record_at (stream s) q e \<longrightarrow> record_at (stream s3) q e)"
    if app: "Append s d = (r'', s3)"
  proof -
    obtain n pos e where r: "r'' = (n, pos, e)" by (metis prod.exhaust)
    from assms have ae: "at_end (File s)" and le: "unat (fileSize s) \<le> length (stream s)"
      by (simp_all add: store_inv_def)
    from Append_at_end(5)[OF app[unfolded r] ae] have pre: "prefix (stream s) (stream s3)" .
    then obtain zs where zs: "stream s3 = stream s @ zs" by (auto simp: prefix_def)
    have "i < length (stream s3) \<and> stream s3 ! i = stream s ! i" if "i < unat (fileSize s)" for i
      using that le by (simp add: zs nth_append)
    moreover have "record_at (stream s3) q e" if "record_at (stream s) q e" for q e
      using pre that by (rule record_at_prefix)
    ultimately show ?thesis using pre by blast
  qed
  from rd ra ap show ?thesis by blast
qed

text \<open>A store with one buffered record: a read, and an append of one more byte.\<close>

theorem reads_and_appends_frame_witness:
  "store_inv \<lparr>File = CreateTemp 100, buffer = NewWriter\<lparr>buf := encode_record [1, 2, 3]\<rparr>,
               fileSize = 11\<rparr> \<and>
   fileSize (snd (Read \<lparr>File = CreateTemp 100,
       buffer = NewWriter\<lparr>buf := encode_record [1, 2, 3]\<rparr>, fileSize = 11\<rparr> 0)) = 11 \<and>
   stream (snd (Read \<lparr>File = CreateTemp 100,
       buffer = NewWriter\<lparr>buf := encode_record [1, 2, 3]\<rparr>, fileSize = 11\<rparr> 0))
     = [0, 0, 0, 0, 0, 0, 0, 3, 1, 2, 3] \<and>
   prefix [0, 0, 0, 0, 0, 0, 0, 3, 1, 2, 3]
     (stream (snd (Append \<lparr>File = CreateTemp 100,
       buffer = NewWriter\<lparr>buf := encode_record [1, 2, 3]\<rparr>, fileSize = 11\<rparr> [4])))"
proof -
  let ?s1 = "\<lparr>File = CreateTemp 100, buffer = NewWriter\<lparr>buf := encode_record [1, 2, 3]\<rparr>,
             fileSize = 11\<rparr>"
  have inv: "store_inv ?s1" by (rule store_inv_one_record)
  have st: "stream ?s1 = [0, 0, 0, 0, 0, 0, 0, 3, 1, 2, 3]"
    by (simp add: stream_def CreateTemp_def NewWriter_def encode_record_123)
  have rd: "Read ?s1 0 = (fst (Read ?s1 0), snd (Read ?s1 0))" by simp
  have app: "Append ?s1 [4] = (fst (Append ?s1 [4]), snd (Append ?s1 [4]))" by simp
  note T = reads_and_appends_frame[OF inv]
  from T[THEN conjunct1, rule_format, OF rd]
  have "fileSize (snd (Read ?s1 0)) = 11" and "stream (snd (Read ?s1 0)) = stream ?s1"
    by simp_all
  moreover from T[THEN conjunct2, THEN conjunct2, rule_format, OF app]
  have "prefix (stream ?s1) (stream (snd (Append ?s1 [4])))" by blast
  ultimately show ?thesis using inv by (simp only: st)
qed

text \<open>
  Claim C9. Whenever \<open>Append\<close> returns an error, the count and the position it returns
  with it are both 0, whatever the size cursor was.
\<close>

theorem Append_error_returns_zero:
  "Append s data = ((n, pos, Some e), s') \<Longrightarrow> n = 0 \<and> pos = 0"
  using Append_result(1)[of s data n pos "Some e" s'] by simp

text \<open>The run on the file of three bytes: the cursor is 3, the failed append returns 0 and 0.\<close>

theorem Append_error_returns_zero_witness:
  "fileSize \<lparr>File = (CreateTemp 3)\<lparr>content := [1, 2, 3], offset := 3\<rparr>, buffer = NewWriter,
       fileSize = 3\<rparr> = 3 \<and>
   fst (Append \<lparr>File = (CreateTemp 3)\<lparr>content := [1, 2, 3], offset := 3\<rparr>, buffer = NewWriter,
       fileSize = 3\<rparr> (replicate 5000 7)) = (0, 0, Some ErrNoSpace)"
proof -
  let ?s = "\<lparr>File = (CreateTemp 3)\<lparr>content := [1, 2, 3], offset := 3\<rparr>, buffer = NewWriter,
       fileSize = 3\<rparr>"
  let ?r = "Append ?s (replicate 5000 7)"
  have "?r = ((fst (fst ?r), fst (snd (fst ?r)), Some ErrNoSpace), snd ?r)"
    using full_disk_append_error by (metis prod.collapse)
  from Append_error_returns_zero[OF this] full_disk_append_error show ?thesis
    by (simp add: prod_eq_iff)
qed

text \<open>
  Claim C10 (empty records), as the code has it. On a store that satisfies the invariant,
  the only error \<open>Append\<close> of the empty sequence can return is that of writing the
  header: it succeeds whenever no earlier write has failed and 8 bytes of the buffer are
  free. When it succeeds it returns 8 and the current cursor \<open>p\<close>, the record is eight
  zero bytes, and the next \<open>Read p\<close> returns the empty sequence unless its flush fails.
\<close>

theorem empty_record:
  assumes "store_inv s"
  shows "snd (snd (fst (Append s []))) = fst (binary_Write (buffer s) (File s) 0) \<and>
         (err (buffer s) = None \<and> length (buf (buffer s)) + 8 \<le> bufsize (buffer s) \<longrightarrow>
            fst (Append s []) = (8, fileSize s, None)) \<and>
         (Append s [] = ((n, p, None), s1) \<longrightarrow>
            n = 8 \<and> p = fileSize s \<and> stream s1 = stream s @ replicate 8 0 \<and>
            (Read s1 p = ((r, e), s2) \<longrightarrow>
               e = fst (Flush (buffer s1) (File s1)) \<and> (e = None \<longrightarrow> r = []) \<and>
               (\<not> closed (File s1) \<and> length (stream s1) \<le> capacity (File s1) \<longrightarrow> e = None)))"
proof -
  have fits: "fst (Append s []) = (8, fileSize s, None)"
    if "err (buffer s) = None \<and> length (buf (buffer s)) + 8 \<le> bufsize (buffer s)"
    using that Append_fits[of s "[]"] by simp
  have ok: "n = 8 \<and> p = fileSize s \<and> stream s1 = stream s @ replicate 8 0 \<and>
            (Read s1 p = ((r, e), s2) \<longrightarrow>
               e = fst (Flush (buffer s1) (File s1)) \<and> (e = None \<longrightarrow> r = []) \<and>
               (\<not> closed (File s1) \<and> length (stream s1) \<le> capacity (File s1) \<longrightarrow> e = None))"
    if app: "Append s [] = ((n, p, None), s1)"
  proof -
    from assms have ae: "at_end (File s)" by (simp add: store_inv_def)
    from Append_at_end(6)[OF app ae] have "n = 8"
      and "stream s1 = stream s @ replicate 8 0"
      by (simp_all add: encode_record_def PutUint64_0)
    moreover from Append_result(2)[OF app] have "p = fileSize s" by simp
    moreover have "e = fst (Flush (buffer s1) (File s1)) \<and> (e = None \<longrightarrow> r = []) \<and>
               (\<not> closed (File s1) \<and> length (stream s1) \<le> capacity (File s1) \<longrightarrow> e = None)"
      if "Read s1 p = ((r, e), s2)"
      using assms app that by (rule Read_after_Append)
    ultimately show ?thesis by blast
  qed
  from Append_empty_error[of s] fits ok show ?thesis by blast
qed

text \<open>
  Without the condition the claim fails: with 4090 bytes pending in the buffer and a
  device that is full, the header of the empty record does not fit, the flush fails and
  \<open>Append\<close> of the empty sequence returns an error.
\<close>

theorem empty_record_counterexample:
  "fst (Append \<lparr>File = CreateTemp 0, buffer = NewWriter, fileSize = 0\<rparr> (replicate 4082 0))
     = (4090, 0, None) \<and>
   fst (Append (snd (Append \<lparr>File = CreateTemp 0, buffer = NewWriter, fileSize = 0\<rparr>
      (replicate 4082 0))) []) = (0, 0, Some ErrNoSpace)"
  unfolding nearly_full_append fst_conv snd_conv
  by (simp add: Append_def binary_Write_def Write_def Write_loop.simps Flush_def
      file_Write_def NewWriter_def defaultBufSize_def CreateTemp_def Available_def Buffered_def
      encode_record_def PutUint64_def Let_def)

text \<open>On a new store the empty record is appended and read back.\<close>

theorem empty_record_witness:
  "store_inv \<lparr>File = CreateTemp 100, buffer = NewWriter, fileSize = 0\<rparr> \<and>
   fst (Append \<lparr>File = CreateTemp 100, buffer = NewWriter, fileSize = 0\<rparr> []) = (8, 0, None) \<and>
   fst (Read (snd (Append \<lparr>File = CreateTemp 100, buffer = NewWriter, fileSize = 0\<rparr> [])) 0)
     = ([], None)"
proof -
  let ?s = "\<lparr>File = CreateTemp 100, buffer = NewWriter, fileSize = 0\<rparr>"
  let ?s1 = "\<lparr>File = CreateTemp 100, buffer = NewWriter\<lparr>buf := encode_record []\<rparr>,
             fileSize = 8\<rparr>"
  let ?R = "Read ?s1 0"
  have inv: "store_inv ?s" by (simp add: store_inv_fresh)
  have app: "Append ?s [] = ((8, 0, None), ?s1)" by (rule fresh_append_empty)
  have rd: "?R = ((fst (fst ?R), snd (fst ?R)), snd ?R)" by simp
  have ok: "\<not> closed (File ?s1) \<and> length (stream ?s1) \<le> capacity (File ?s1)"
    by (simp add: CreateTemp_def stream_def NewWriter_def)
  note T = empty_record[OF inv, of 8 0 ?s1 "fst (fst ?R)" "snd (fst ?R)" "snd ?R",
      THEN conjunct2, THEN conjunct2, rule_format, OF app,
      THEN conjunct2, THEN conjunct2, THEN conjunct2, rule_format, OF rd]
  from T[THEN conjunct2, THEN conjunct2, rule_format, OF ok]
  have e: "snd (fst ?R) = None" .
  from T[THEN conjunct2, THEN conjunct1, rule_format, OF e]
  have "fst (fst ?R) = []" .
  with e have "fst ?R = ([], None)" by (simp add: prod_eq_iff)
  with inv app show ?thesis by simp
qed

end
